theory Spec2Isabelle
  imports Main "HOL-Library.Word" "HOL-Library.AList" "HOL-Library.Multiset"
begin

section \<open>Tip sets\<close>

text \<open>
  The scheduler (package chain, type SyncManager) works on values of types.TipSet, a type
  of package chain/types whose declaration is not part of the sources at hand. Only its
  accessors are used: Cids, Parents, Height, ParentWeight, Key, Equals, and the helper
  types.CidArrsEqual.
\<close>

type_synonym Cid = nat
type_synonym TipSetKey = "Cid list"
type_synonym peer_ID = string

text \<open>
  Modelled from the spec: types.TipSet, missing from the sources. The spec gives a tip set
  an identity (key), a height, parent tip-set references, a weight and block identifiers.
  Height is a uint64, the weight a big integer.
\<close>

record TipSet =
  Cids :: "Cid list"
  Parents :: "Cid list"
  Height :: "64 word"
  ParentWeight :: int

text \<open>
  Modelled from the spec: TipSet.Key, missing from the sources. The identity of a tip set
  is carried by its block identifiers.
\<close>

definition Key :: "TipSet \<Rightarrow> TipSetKey" where
  "Key ts = Cids ts"

text \<open>
  Modelled from the spec: TipSet.Equals, missing from the sources. Two tip sets are equal
  when they have the same identity.
\<close>

definition Equals :: "TipSet \<Rightarrow> TipSet \<Rightarrow> bool" where
  "Equals ts ots = (Key ts = Key ots)"

text \<open>
  Modelled from the spec: types.CidArrsEqual, missing from the sources. The spec relates two
  tip sets when the parent set of one equals the identifier set of the other.
\<close>

definition CidArrsEqual :: "Cid list \<Rightarrow> Cid list \<Rightarrow> bool" where
  "CidArrsEqual a b = (set a = set b)"

section \<open>Panics\<close>

text \<open>
  The two run-time panics the scheduler code can raise: a method that reads a field
  through a nil pointer, and make with a negative capacity.
\<close>

datatype panic = NilPointerDereference | MakesliceCapOutOfRange

section \<open>syncTargetBucket\<close>

text \<open>The field count is a Go int, taken here at 64 bits; the increment wraps.\<close>

record syncTargetBucket =
  tips :: "TipSet list"
  count :: "64 word"

text \<open>syncTargetBucket.sameChainAs: the loop over stb.tips with its three early returns.\<close>

fun sameChainAs_loop :: "TipSet list \<Rightarrow> TipSet \<Rightarrow> bool" where
  "sameChainAs_loop [] ts = False"
| "sameChainAs_loop (t # rest) ts =
     (if Equals ts t then True
      else if CidArrsEqual (Cids ts) (Parents t) then True
      else if CidArrsEqual (Parents ts) (Cids t) then True
      else sameChainAs_loop rest ts)"

definition sameChainAs :: "syncTargetBucket \<Rightarrow> TipSet \<Rightarrow> bool" where
  "sameChainAs stb ts = sameChainAs_loop (tips stb) ts"

text \<open>syncTargetBucket.add: count is incremented first, then the loop looks for an equal member.\<close>

fun add_loop :: "TipSet list \<Rightarrow> TipSet \<Rightarrow> bool" where
  "add_loop [] ts = False"
| "add_loop (t # rest) ts = (if Equals t ts then True else add_loop rest ts)"

definition add :: "TipSet \<Rightarrow> syncTargetBucket \<Rightarrow> syncTargetBucket" where
  "add ts stb =
     (let stb1 = stb\<lparr>count := count stb + 1\<rparr>
      in if add_loop (tips stb1) ts then stb1
         else stb1\<lparr>tips := tips stb1 @ [ts]\<rparr>)"

text \<open>
  syncTargetBucket.heaviestTipSet. The receiver is a pointer and may be nil (None); the
  result is a pointer too, nil when the bucket has no tips.
\<close>

fun heaviestTipSet_loop :: "TipSet option \<Rightarrow> TipSet list \<Rightarrow> TipSet option" where
  "heaviestTipSet_loop best [] = best"
| "heaviestTipSet_loop best (ts # rest) =
     heaviestTipSet_loop
       (case best of
          None \<Rightarrow> Some ts
        | Some b \<Rightarrow> if ParentWeight ts > ParentWeight b then Some ts else Some b)
       rest"

definition heaviestTipSet :: "syncTargetBucket option \<Rightarrow> TipSet option" where
  "heaviestTipSet stb =
     (case stb of None \<Rightarrow> None | Some b \<Rightarrow> heaviestTipSet_loop None (tips b))"

section \<open>syncBucketSet\<close>

text \<open>
  The struct syncBucketSet has the single field buckets, a slice of pointers to buckets.
  Every pointer in a set is to an object of its own (Insert allocates, Pop and PopRelated
  move a bucket out of the set), so a bucket of a set is identified by its index.
\<close>

type_synonym syncBucketSet = "syncTargetBucket list"

text \<open>syncBucketSet.Insert: the first bucket on the same chain takes the tip set.\<close>

fun Insert :: "TipSet \<Rightarrow> syncBucketSet \<Rightarrow> syncBucketSet" where
  "Insert ts [] = [\<lparr>tips = [ts], count = 1\<rparr>]"
| "Insert ts (b # bs) =
     (if sameChainAs b ts then add ts b # bs else b # Insert ts bs)"

text \<open>
  syncBucketSet.removeBucket: toremove is the index of the bucket pointed to, None for a
  nil pointer. The new slice is made with capacity len - 1, which panics on an empty set.
\<close>

definition removeBucket :: "nat option \<Rightarrow> syncBucketSet \<Rightarrow> panic + syncBucketSet" where
  "removeBucket toremove sbs =
     (if int (length sbs) - 1 < 0 then Inl MakesliceCapOutOfRange
      else Inr (case toremove of
                  None \<Rightarrow> sbs
                | Some i \<Rightarrow> take i sbs @ drop (Suc i) sbs))"

text \<open>
  syncBucketSet.Pop: the loop keeps the index of the best bucket and its heaviest tip set.
  ParentWeight through a nil tip set panics; the test bestBuck == nil comes first and
  short-circuits.
\<close>

fun Pop_loop ::
  "(nat \<times> TipSet option) option \<Rightarrow> nat \<Rightarrow> syncTargetBucket list
    \<Rightarrow> panic + (nat \<times> TipSet option) option" where
  "Pop_loop best i [] = Inr best"
| "Pop_loop best i (b # bs) =
     (let hts = heaviestTipSet (Some b)
      in case best of
           None \<Rightarrow> Pop_loop (Some (i, hts)) (Suc i) bs
         | Some (bi, bestTs) \<Rightarrow>
             (case bestTs of
                None \<Rightarrow> Inl NilPointerDereference
              | Some bt \<Rightarrow>
                  (case hts of
                     None \<Rightarrow> Inl NilPointerDereference
                   | Some h \<Rightarrow>
                       if ParentWeight bt < ParentWeight h
                       then Pop_loop (Some (i, hts)) (Suc i) bs
                       else Pop_loop best (Suc i) bs)))"

definition Pop :: "syncBucketSet \<Rightarrow> panic + (syncTargetBucket option \<times> syncBucketSet)" where
  "Pop sbs =
     (case Pop_loop None 0 sbs of
        Inl e \<Rightarrow> Inl e
      | Inr best \<Rightarrow>
          (case removeBucket (map_option fst best) sbs of
             Inl e \<Rightarrow> Inl e
           | Inr sbs' \<Rightarrow> Inr (map_option (\<lambda>(i, _). sbs ! i) best, sbs')))"

text \<open>syncBucketSet.PopRelated: the first bucket on the same chain is removed and returned.\<close>

fun PopRelated_loop :: "TipSet \<Rightarrow> nat \<Rightarrow> syncTargetBucket list \<Rightarrow> nat option" where
  "PopRelated_loop ts i [] = None"
| "PopRelated_loop ts i (b # bs) =
     (if sameChainAs b ts then Some i else PopRelated_loop ts (Suc i) bs)"

definition PopRelated ::
  "TipSet \<Rightarrow> syncBucketSet \<Rightarrow> panic + (syncTargetBucket option \<times> syncBucketSet)" where
  "PopRelated ts sbs =
     (case PopRelated_loop ts 0 sbs of
        None \<Rightarrow> Inr (None, sbs)
      | Some i \<Rightarrow>
          (case removeBucket (Some i) sbs of
             Inl e \<Rightarrow> Inl e
           | Inr sbs' \<Rightarrow> Inr (Some (sbs ! i), sbs')))"

text \<open>syncBucketSet.Heaviest: read-only; bestTs == nil short-circuits the comparison.\<close>

fun Heaviest_loop :: "TipSet option \<Rightarrow> syncTargetBucket list \<Rightarrow> panic + TipSet option" where
  "Heaviest_loop bestTs [] = Inr bestTs"
| "Heaviest_loop bestTs (b # bs) =
     (let bhts = heaviestTipSet (Some b)
      in case bestTs of
           None \<Rightarrow> Heaviest_loop bhts bs
         | Some bt \<Rightarrow>
             (case bhts of
                None \<Rightarrow> Inl NilPointerDereference
              | Some h \<Rightarrow>
                  if ParentWeight h > ParentWeight bt
                  then Heaviest_loop bhts bs
                  else Heaviest_loop bestTs bs))"

definition Heaviest :: "syncBucketSet \<Rightarrow> panic + TipSet option" where
  "Heaviest sbs = Heaviest_loop None sbs"

section \<open>SyncManager\<close>

text \<open>
  The channel variable workerChan is either nil or the channel syncTargets the workers
  receive from. The field ts of syncResult is written result_ts.
\<close>

datatype chan = nil_chan | syncTargets

record syncResult =
  result_ts :: TipSet
  success :: bool

text \<open>
  The fields of SyncManager the registry and the control loop read and write. The two Go
  maps are association lists with distinct keys, written with AList.update and
  AList.delete; the order in which a range statement visits a map is not the order of the
  list, it is an argument of the function that ranges. bspThresh is a Go int and is only
  compared.
\<close>

record SyncManager =
  peerHeads :: "(peer_ID \<times> TipSet) list"
  bootstrapped :: bool
  bspThresh :: int
  activeSyncs :: "(TipSetKey \<times> TipSet) list"
  syncQueue :: syncBucketSet
  activeSyncTips :: syncBucketSet
  nextSyncTarget :: "syncTargetBucket option"
  workerChan :: chan

definition BootstrapPeerThreshold :: int where
  "BootstrapPeerThreshold = 2"

definition NewSyncManager :: SyncManager where
  "NewSyncManager =
     \<lparr>peerHeads = [], bootstrapped = False, bspThresh = 1, activeSyncs = [],
      syncQueue = [], activeSyncTips = [], nextSyncTarget = None, workerChan = nil_chan\<rparr>"

text \<open>SyncManager.syncedPeerCount: the peers whose recorded head has a height above 0.\<close>

fun syncedPeerCount_loop :: "int \<Rightarrow> (peer_ID \<times> TipSet) list \<Rightarrow> int" where
  "syncedPeerCount_loop n [] = n"
| "syncedPeerCount_loop n ((p, ts) # rest) =
     syncedPeerCount_loop (if Height ts > 0 then n + 1 else n) rest"

definition syncedPeerCount :: "SyncManager \<Rightarrow> int" where
  "syncedPeerCount sm = syncedPeerCount_loop 0 (peerHeads sm)"

text \<open>
  SyncManager.selectSyncTarget. Its argument is the local slice peerHeads as it stands
  after sort.Slice: the values of the map sm.peerHeads, in an order of non-decreasing
  height that the map iteration and the unstable sort leave open. The error result of the
  Go function is always nil and is left out.
\<close>

definition sortedPeerHeads :: "SyncManager \<Rightarrow> TipSet list \<Rightarrow> bool" where
  "sortedPeerHeads sm hs =
     (mset hs = mset (map snd (peerHeads sm)) \<and>
      sorted_wrt (\<lambda>a b. \<not> Height b < Height a) hs)"

definition selectSyncTarget :: "TipSet list \<Rightarrow> panic + TipSet option" where
  "selectSyncTarget hs = Heaviest (foldl (\<lambda>buckets ts. Insert ts buckets) [] hs)"

text \<open>
  SyncManager.SetPeerHead. The result holds the new state and the pointers sent on the
  channel incomingTipSets by this call, in order.
\<close>

definition SetPeerHead ::
  "TipSet list \<Rightarrow> peer_ID \<Rightarrow> TipSet \<Rightarrow> SyncManager
    \<Rightarrow> panic + (SyncManager \<times> TipSet option list)" where
  "SetPeerHead hs p ts sm =
     (let sm1 = sm\<lparr>peerHeads := AList.update p ts (peerHeads sm)\<rparr>
      in if \<not> bootstrapped sm1 then
           (let spc = syncedPeerCount sm1
            in if spc \<ge> bspThresh sm1 then
                 (case selectSyncTarget hs of
                    Inl e \<Rightarrow> Inl e
                  | Inr target \<Rightarrow> Inr (sm1\<lparr>bootstrapped := True\<rparr>, [target]))
               else Inr (sm1, []))
         else Inr (sm1, [Some ts]))"

section \<open>The scheduler\<close>

text \<open>
  The loop of scheduleIncoming over the values of activeSyncs, in the order acts of the
  range: equality with an active tip set leaves the loop, a parent among the active tip
  sets sets the flag.
\<close>

fun relatedToActiveSync_loop :: "TipSet \<Rightarrow> bool \<Rightarrow> TipSet list \<Rightarrow> bool" where
  "relatedToActiveSync_loop ts rel [] = rel"
| "relatedToActiveSync_loop ts rel (acts # rest) =
     (if Equals ts acts then rel
      else relatedToActiveSync_loop ts
             (if CidArrsEqual (Parents ts) (Cids acts) then True else rel) rest)"

definition scheduleIncoming :: "TipSet list \<Rightarrow> TipSet \<Rightarrow> SyncManager \<Rightarrow> panic + SyncManager" where
  "scheduleIncoming acts ts sm =
     (if relatedToActiveSync_loop ts False acts
      then Inr (sm\<lparr>activeSyncTips := Insert ts (activeSyncTips sm)\<rparr>)
      else if (case nextSyncTarget sm of None \<Rightarrow> False | Some nst \<Rightarrow> sameChainAs nst ts)
      then Inr (sm\<lparr>nextSyncTarget := map_option (add ts) (nextSyncTarget sm)\<rparr>)
      else
        (let sm1 = sm\<lparr>syncQueue := Insert ts (syncQueue sm)\<rparr>
         in if nextSyncTarget sm1 = None then
              (case Pop (syncQueue sm1) of
                 Inl e \<Rightarrow> Inl e
               | Inr (b, q) \<Rightarrow>
                   Inr (sm1\<lparr>syncQueue := q, nextSyncTarget := b, workerChan := syncTargets\<rparr>))
            else Inr sm1))"

definition scheduleProcessResult :: "syncResult \<Rightarrow> SyncManager \<Rightarrow> panic + SyncManager" where
  "scheduleProcessResult res sm =
     (let sm1 = sm\<lparr>activeSyncs := AList.delete (Key (result_ts res)) (activeSyncs sm)\<rparr>
      in case PopRelated (result_ts res) (activeSyncTips sm1) of
           Inl e \<Rightarrow> Inl e
         | Inr (relbucket, rest) \<Rightarrow>
             (let sm2 = sm1\<lparr>activeSyncTips := rest\<rparr>
              in case relbucket of
                   None \<Rightarrow> Inr sm2
                 | Some rb \<Rightarrow>
                     if success res then
                       (if nextSyncTarget sm2 = None
                        then Inr (sm2\<lparr>nextSyncTarget := Some rb, workerChan := syncTargets\<rparr>)
                        else Inr (sm2\<lparr>syncQueue := syncQueue sm2 @ [rb]\<rparr>))
                     else Inr sm2))"

definition scheduleWorkSent :: "SyncManager \<Rightarrow> panic + SyncManager" where
  "scheduleWorkSent sm =
     (case heaviestTipSet (nextSyncTarget sm) of
        None \<Rightarrow> Inl NilPointerDereference
      | Some hts \<Rightarrow>
          (let sm1 = sm\<lparr>activeSyncs := AList.update (Key hts) hts (activeSyncs sm)\<rparr>
           in if length (syncQueue sm1) > 0 then
                (case Pop (syncQueue sm1) of
                   Inl e \<Rightarrow> Inl e
                 | Inr (b, q) \<Rightarrow> Inr (sm1\<lparr>syncQueue := q, nextSyncTarget := b\<rparr>))
              else Inr (sm1\<lparr>nextSyncTarget := None, workerChan := nil_chan\<rparr>)))"

text \<open>
  SyncManager.syncScheduler: the select statement takes one event at a time. A tip set
  received from incomingTipSets comes with the order in which the range over activeSyncs
  visits the active tip sets; a send on workerChan can only be taken while workerChan is
  not nil, and what is sent is the heaviest tip set of nextSyncTarget; Stop closes the
  channel stop and ends the loop.
\<close>

datatype event =
    IncomingTipSet TipSet "TipSet list"
  | SyncResult syncResult
  | WorkSent
  | Stop

fun enabled :: "SyncManager \<Rightarrow> event \<Rightarrow> bool" where
  "enabled sm (IncomingTipSet ts acts) = (mset acts = mset (map snd (activeSyncs sm)))"
| "enabled sm (SyncResult res) = True"
| "enabled sm WorkSent = (workerChan sm = syncTargets)"
| "enabled sm Stop = True"

fun schedule :: "event \<Rightarrow> SyncManager \<Rightarrow> panic + SyncManager" where
  "schedule (IncomingTipSet ts acts) sm = scheduleIncoming acts ts sm"
| "schedule (SyncResult res) sm = scheduleProcessResult res sm"
| "schedule WorkSent sm = scheduleWorkSent sm"
| "schedule Stop sm = Inr sm"

fun syncScheduler :: "event list \<Rightarrow> SyncManager \<Rightarrow> panic + SyncManager" where
  "syncScheduler [] sm = Inr sm"
| "syncScheduler (Stop # es) sm = Inr sm"
| "syncScheduler (e # es) sm =
     (case schedule e sm of Inl p \<Rightarrow> Inl p | Inr sm' \<Rightarrow> syncScheduler es sm')"

text \<open>An event sequence the select statement can take from a state, one event after the other.\<close>

fun feasible :: "SyncManager \<Rightarrow> event list \<Rightarrow> bool" where
  "feasible sm [] = True"
| "feasible sm (Stop # es) = True"
| "feasible sm (e # es) =
     (enabled sm e \<and> (case schedule e sm of Inl p \<Rightarrow> True | Inr sm' \<Rightarrow> feasible sm' es))"

section \<open>Properties of states\<close>

text \<open>
  Two tip sets are same-chain-related when they are equal, or the identifiers of one are
  the parents of the other: the three tests of sameChainAs on one member.
\<close>

definition sameChainRelated :: "TipSet \<Rightarrow> TipSet \<Rightarrow> bool" where
  "sameChainRelated ts t =
     (Equals ts t \<or> CidArrsEqual (Cids ts) (Parents t) \<or> CidArrsEqual (Parents ts) (Cids t))"

text \<open>Two buckets are related when a member of the first is on the same chain as the second.\<close>

definition bucketsRelated :: "syncTargetBucket \<Rightarrow> syncTargetBucket \<Rightarrow> bool" where
  "bucketsRelated a b = list_ex (sameChainAs b) (tips a)"

text \<open>
  A bucket set is partitioned when no two of its buckets, at different positions, are
  related, in either direction.
\<close>

definition partitioned :: "syncBucketSet \<Rightarrow> bool" where
  "partitioned bs = sorted_wrt (\<lambda>a b. \<not> bucketsRelated a b \<and> \<not> bucketsRelated b a) bs"

text \<open>
  The founder of a bucket is the tip set the bucket was opened for, the first of its tips:
  add only appends. The founders of a set are apart when no two of them, from buckets at
  different positions, are same-chain-related, in either direction.
\<close>

definition founder :: "syncTargetBucket \<Rightarrow> TipSet option" where
  "founder b = (case tips b of [] \<Rightarrow> None | t # rest \<Rightarrow> Some t)"

definition foundersRelated :: "TipSet option \<Rightarrow> TipSet option \<Rightarrow> bool" where
  "foundersRelated x y =
     (case x of
        None \<Rightarrow> False
      | Some t \<Rightarrow> (case y of None \<Rightarrow> False | Some u \<Rightarrow> sameChainRelated t u))"

definition foundersApart :: "syncBucketSet \<Rightarrow> bool" where
  "foundersApart bs =
     sorted_wrt (\<lambda>x y. \<not> foundersRelated x y \<and> \<not> foundersRelated y x) (map founder bs)"

text \<open>
  The one place where a bucket enters syncQueue without Insert: scheduleProcessResult
  appends the bucket it popped from activeSyncTips, on success, when a next sync target is
  set. A run is replay-free when none of its events takes that branch.
\<close>

fun replays :: "SyncManager \<Rightarrow> event \<Rightarrow> bool" where
  "replays sm (SyncResult res) =
     (success res \<and> nextSyncTarget sm \<noteq> None \<and>
      list_ex (\<lambda>b. sameChainAs b (result_ts res)) (activeSyncTips sm))"
| "replays sm (IncomingTipSet ts acts) = False"
| "replays sm WorkSent = False"
| "replays sm Stop = False"

fun replayFree :: "SyncManager \<Rightarrow> event list \<Rightarrow> bool" where
  "replayFree sm [] = True"
| "replayFree sm (Stop # es) = True"
| "replayFree sm (e # es) =
     (\<not> replays sm e \<and>
      (case schedule e sm of Inl p \<Rightarrow> True | Inr sm' \<Rightarrow> replayFree sm' es))"

text \<open>No two entries of the active-sync map hold same-chain-related tip sets.\<close>

definition singleActiveSyncPerLineage :: "SyncManager \<Rightarrow> bool" where
  "singleActiveSyncPerLineage sm =
     list_all (\<lambda>(k, t). list_all (\<lambda>(k', t'). k = k' \<or> \<not> sameChainRelated t t') (activeSyncs sm))
       (activeSyncs sm)"

text \<open>
  What holds of every state the control loop reaches: no bucket is without tips, and
  workerChan is nil exactly when there is no next sync target.
\<close>

definition bucketsNonEmpty :: "syncBucketSet \<Rightarrow> bool" where
  "bucketsNonEmpty bs = list_all (\<lambda>b. tips b \<noteq> []) bs"

definition schedulerInv :: "SyncManager \<Rightarrow> bool" where
  "schedulerInv sm =
     (bucketsNonEmpty (syncQueue sm) \<and> bucketsNonEmpty (activeSyncTips sm) \<and>
      (case nextSyncTarget sm of None \<Rightarrow> workerChan sm = nil_chan
       | Some b \<Rightarrow> tips b \<noteq> [] \<and> workerChan sm = syncTargets))"

text \<open>One pass of the loop of Pop, on the bucket at index i.\<close>

definition Pop_step ::
  "(nat \<times> TipSet option) option \<Rightarrow> nat \<Rightarrow> syncTargetBucket
    \<Rightarrow> panic + (nat \<times> TipSet option) option" where
  "Pop_step best i b =
     (let hts = heaviestTipSet (Some b)
      in case best of
           None \<Rightarrow> Inr (Some (i, hts))
         | Some (bi, bestTs) \<Rightarrow>
             (case bestTs of
                None \<Rightarrow> Inl NilPointerDereference
              | Some bt \<Rightarrow>
                  (case hts of
                     None \<Rightarrow> Inl NilPointerDereference
                   | Some h \<Rightarrow>
                       if ParentWeight bt < ParentWeight h then Inr (Some (i, hts))
                       else Inr best)))"

text \<open>All the tip sets held by the buckets of a set.\<close>

definition bucketTips :: "syncBucketSet \<Rightarrow> TipSet set" where
  "bucketTips bs = set (concat (map tips bs))"

text \<open>
  A sequence of calls of SetPeerHead, each with the sorted slice its selectSyncTarget
  would see; the result collects what the calls send on incomingTipSets.
\<close>

fun SetPeerHeads ::
  "(TipSet list \<times> peer_ID \<times> TipSet) list \<Rightarrow> SyncManager
    \<Rightarrow> panic + (SyncManager \<times> TipSet option list)" where
  "SetPeerHeads [] sm = Inr (sm, [])"
| "SetPeerHeads ((hs, p, ts) # rs) sm =
     (case SetPeerHead hs p ts sm of
        Inl e \<Rightarrow> Inl e
      | Inr (sm1, out1) \<Rightarrow>
          (case SetPeerHeads rs sm1 of
             Inl e \<Rightarrow> Inl e
           | Inr (sm2, out2) \<Rightarrow> Inr (sm2, out1 @ out2)))"

section \<open>Example tip sets\<close>

text \<open>
  A chain of four tip sets, each the parent of the next; two siblings of the third; and a
  tip set of another chain.
\<close>

definition ex_T0 :: TipSet where
  "ex_T0 = \<lparr>Cids = [10], Parents = [9], Height = 1, ParentWeight = 100\<rparr>"

definition ex_T1 :: TipSet where
  "ex_T1 = \<lparr>Cids = [11], Parents = [10], Height = 2, ParentWeight = 200\<rparr>"

definition ex_T2 :: TipSet where
  "ex_T2 = \<lparr>Cids = [12], Parents = [11], Height = 3, ParentWeight = 300\<rparr>"

definition ex_T3 :: TipSet where
  "ex_T3 = \<lparr>Cids = [13], Parents = [12], Height = 4, ParentWeight = 400\<rparr>"

definition ex_X2 :: TipSet where
  "ex_X2 = \<lparr>Cids = [22], Parents = [11], Height = 3, ParentWeight = 310\<rparr>"

definition ex_Y2 :: TipSet where
  "ex_Y2 = \<lparr>Cids = [32], Parents = [11], Height = 3, ParentWeight = 320\<rparr>"

definition ex_U :: TipSet where
  "ex_U = \<lparr>Cids = [50], Parents = [49], Height = 7, ParentWeight = 50\<rparr>"

section \<open>Example states\<close>

text \<open>
  The state of the control loop once ex_T1 has come in and has been sent to a worker, and
  the same state with ex_X2 and ex_T2, two children of ex_T1, held back in activeSyncTips.
\<close>

definition ex_dispatched :: SyncManager where
  "ex_dispatched = NewSyncManager\<lparr>activeSyncs := [(Key ex_T1, ex_T1)]\<rparr>"

definition ex_overflow :: SyncManager where
  "ex_overflow =
     ex_dispatched\<lparr>activeSyncTips :=
       [\<lparr>tips = [ex_X2], count = 1\<rparr>, \<lparr>tips = [ex_T2], count = 1\<rparr>]\<rparr>"

lemmas ex_defs = ex_T0_def ex_T1_def ex_T2_def ex_T3_def ex_X2_def ex_Y2_def ex_U_def

lemmas ex_state_defs = ex_dispatched_def ex_overflow_def NewSyncManager_def

lemmas tipset_defs = Key_def Equals_def CidArrsEqual_def

section \<open>Buckets\<close>

lemma sameChainAs_loop_iff:
  "sameChainAs_loop xs ts = (\<exists>t\<in>set xs. sameChainRelated ts t)"
  by (induction xs) (auto simp: sameChainRelated_def)

lemma sameChainAs_iff:
  "sameChainAs b ts = (\<exists>t\<in>set (tips b). sameChainRelated ts t)"
  by (simp add: sameChainAs_def sameChainAs_loop_iff)

lemma add_loop_iff: "add_loop xs ts = (\<exists>t\<in>set xs. Equals t ts)"
  by (induction xs) auto

lemma count_add: "count (add ts b) = count b + 1"
  by (simp add: add_def Let_def)

lemma tips_add:
  "tips (add ts b) = (if \<exists>t\<in>set (tips b). Equals t ts then tips b else tips b @ [ts])"
  by (simp add: add_def Let_def add_loop_iff)

section \<open>Insert\<close>

lemma Insert_first_related:
  "i < length bs \<Longrightarrow> sameChainAs (bs ! i) ts \<Longrightarrow> \<forall>j<i. \<not> sameChainAs (bs ! j) ts
    \<Longrightarrow> Insert ts bs = bs[i := add ts (bs ! i)]"
proof (induction bs arbitrary: i)
  case Nil
  then show ?case by simp
next
  case (Cons b bs)
  show ?case
  proof (cases i)
    case 0
    with Cons.prems show ?thesis by simp
  next
    case (Suc k)
    with Cons.prems have "\<not> sameChainAs b ts" by auto
    moreover have "Insert ts bs = bs[k := add ts (bs ! k)]"
      using Cons.prems Suc by (intro Cons.IH) auto
    ultimately show ?thesis using Suc by simp
  qed
qed

lemma Insert_unrelated:
  "\<forall>b\<in>set bs. \<not> sameChainAs b ts \<Longrightarrow> Insert ts bs = bs @ [\<lparr>tips = [ts], count = 1\<rparr>]"
  by (induction bs) auto

lemma first_index:
  assumes "\<exists>b\<in>set bs. P b"
  shows "\<exists>i<length bs. P (bs ! i) \<and> (\<forall>j<i. \<not> P (bs ! j))"
proof -
  from assms obtain k where k: "k < length bs" "P (bs ! k)"
    by (auto simp: in_set_conv_nth)
  define i where "i = (LEAST n. n < length bs \<and> P (bs ! n))"
  have i: "i < length bs \<and> P (bs ! i)"
    unfolding i_def by (rule LeastI[of _ k]) (use k in simp)
  have "\<forall>j<i. \<not> P (bs ! j)"
  proof (intro allI impI notI)
    fix j assume "j < i" "P (bs ! j)"
    then have "j < length bs \<and> P (bs ! j)" using i by simp
    then have "i \<le> j" unfolding i_def by (rule Least_le)
    with \<open>j < i\<close> show False by simp
  qed
  with i show ?thesis by blast
qed

text \<open>
  C4. Insert puts the tip set into the first bucket that is on the same chain: that
  bucket's counter goes up by one in every case, and the tip set is appended to its tips
  only when no member equals it. When no bucket is on the same chain, a new bucket with
  the one tip set and counter 1 is appended.
\<close>

theorem Insert_joins_first_related_bucket:
  "(\<exists>i<length bs.
       sameChainAs (bs ! i) ts \<and> (\<forall>j<i. \<not> sameChainAs (bs ! j) ts) \<and>
       Insert ts bs = bs[i := add ts (bs ! i)] \<and>
       count (add ts (bs ! i)) = count (bs ! i) + 1 \<and>
       tips (add ts (bs ! i)) =
         (if \<exists>t\<in>set (tips (bs ! i)). Equals t ts then tips (bs ! i) else tips (bs ! i) @ [ts]))
   \<or> ((\<forall>b\<in>set bs. \<not> sameChainAs b ts) \<and>
       Insert ts bs = bs @ [\<lparr>tips = [ts], count = 1\<rparr>])"
proof (cases "\<exists>b\<in>set bs. sameChainAs b ts")
  case True
  from first_index[OF True] obtain i where
    i: "i < length bs" "sameChainAs (bs ! i) ts" "\<forall>j<i. \<not> sameChainAs (bs ! j) ts"
    by blast
  have "Insert ts bs = bs[i := add ts (bs ! i)]"
    using i by (rule Insert_first_related)
  with i show ?thesis using count_add tips_add by blast
next
  case False
  then show ?thesis using Insert_unrelated by blast
qed

theorem Insert_joins_first_related_bucket_witness:
  "Insert ex_T2 [\<lparr>tips = [ex_U], count = 1\<rparr>, \<lparr>tips = [ex_T1], count = 1\<rparr>]
     = [\<lparr>tips = [ex_U], count = 1\<rparr>, \<lparr>tips = [ex_T1, ex_T2], count = 2\<rparr>]
   \<and> Insert ex_T1 [\<lparr>tips = [ex_U], count = 1\<rparr>, \<lparr>tips = [ex_T1], count = 1\<rparr>]
     = [\<lparr>tips = [ex_U], count = 1\<rparr>, \<lparr>tips = [ex_T1], count = 2\<rparr>]
   \<and> Insert ex_T3 [\<lparr>tips = [ex_U], count = 1\<rparr>, \<lparr>tips = [ex_T1], count = 1\<rparr>]
     = [\<lparr>tips = [ex_U], count = 1\<rparr>, \<lparr>tips = [ex_T1], count = 1\<rparr>,
        \<lparr>tips = [ex_T3], count = 1\<rparr>]"
  using Insert_joins_first_related_bucket
          [of "[\<lparr>tips = [ex_U], count = 1\<rparr>, \<lparr>tips = [ex_T1], count = 1\<rparr>]" ex_T2]
        Insert_joins_first_related_bucket
          [of "[\<lparr>tips = [ex_U], count = 1\<rparr>, \<lparr>tips = [ex_T1], count = 1\<rparr>]" ex_T1]
        Insert_joins_first_related_bucket
          [of "[\<lparr>tips = [ex_U], count = 1\<rparr>, \<lparr>tips = [ex_T1], count = 1\<rparr>]" ex_T3]
  by (simp add: sameChainAs_def add_def ex_defs tipset_defs)

section \<open>Pop and heaviestTipSet\<close>

lemma heaviestTipSet_loop_snoc:
  "heaviestTipSet_loop best (xs @ [x]) =
     (case heaviestTipSet_loop best xs of
        None \<Rightarrow> Some x
      | Some b \<Rightarrow> if ParentWeight x > ParentWeight b then Some x else Some b)"
  by (induction xs arbitrary: best) auto

lemma heaviestTipSet_loop_first_max:
  "xs \<noteq> [] \<Longrightarrow>
   \<exists>k<length xs. heaviestTipSet_loop None xs = Some (xs ! k) \<and>
      (\<forall>m<length xs. ParentWeight (xs ! m) \<le> ParentWeight (xs ! k)) \<and>
      (\<forall>m<k. ParentWeight (xs ! m) < ParentWeight (xs ! k))"
proof (induction xs rule: rev_induct)
  case Nil
  then show ?case by simp
next
  case (snoc x xs)
  show ?case
  proof (cases "xs = []")
    case True
    then show ?thesis by simp
  next
    case False
    with snoc.IH obtain k where k: "k < length xs"
      "heaviestTipSet_loop None xs = Some (xs ! k)"
      "\<forall>m<length xs. ParentWeight (xs ! m) \<le> ParentWeight (xs ! k)"
      "\<forall>m<k. ParentWeight (xs ! m) < ParentWeight (xs ! k)" by blast
    show ?thesis
    proof (cases "ParentWeight x > ParentWeight (xs ! k)")
      case True
      have "heaviestTipSet_loop None (xs @ [x]) = Some ((xs @ [x]) ! length xs)"
        using k True by (simp add: heaviestTipSet_loop_snoc)
      moreover have "\<forall>m<length (xs @ [x]). ParentWeight ((xs @ [x]) ! m) \<le> ParentWeight ((xs @ [x]) ! length xs)"
        using k True by (auto simp: nth_append less_Suc_eq)
      moreover have "\<forall>m<length xs. ParentWeight ((xs @ [x]) ! m) < ParentWeight ((xs @ [x]) ! length xs)"
        using k True by (auto simp: nth_append)
      ultimately show ?thesis
        by (intro exI[of _ "length xs"]) simp
    next
      case False
      have "heaviestTipSet_loop None (xs @ [x]) = Some ((xs @ [x]) ! k)"
        using k False by (simp add: heaviestTipSet_loop_snoc nth_append)
      moreover have "\<forall>m<length (xs @ [x]). ParentWeight ((xs @ [x]) ! m) \<le> ParentWeight ((xs @ [x]) ! k)"
        using k False by (auto simp: nth_append less_Suc_eq)
      moreover have "\<forall>m<k. ParentWeight ((xs @ [x]) ! m) < ParentWeight ((xs @ [x]) ! k)"
        using k by (auto simp: nth_append)
      ultimately show ?thesis using k(1)
        by (intro exI[of _ k]) simp
    qed
  qed
qed

lemma heaviestTipSet_Some:
  "tips b \<noteq> [] \<Longrightarrow> \<exists>h. heaviestTipSet (Some b) = Some h \<and> h \<in> set (tips b)"
  using heaviestTipSet_loop_first_max[of "tips b"] by (auto simp: heaviestTipSet_def)

lemma Pop_loop_Cons:
  "Pop_loop best i (b # bs) =
     (case Pop_step best i b of Inl e \<Rightarrow> Inl e | Inr r \<Rightarrow> Pop_loop r (Suc i) bs)"
  by (simp add: Pop_step_def Let_def split: option.splits prod.splits)

lemma Pop_loop_snoc:
  "Pop_loop best i (bs @ [b]) =
     (case Pop_loop best i bs of Inl e \<Rightarrow> Inl e | Inr r \<Rightarrow> Pop_step r (i + length bs) b)"
proof (induction bs arbitrary: best i)
  case Nil
  show ?case by (simp add: Pop_loop_Cons del: Pop_loop.simps(2) split: sum.splits)
next
  case (Cons a bs)
  show ?case
    by (simp add: Pop_loop_Cons Cons.IH del: Pop_loop.simps(2) split: sum.splits)
qed

lemma Pop_loop_first_max:
  "bs \<noteq> [] \<Longrightarrow> \<forall>b\<in>set bs. tips b \<noteq> [] \<Longrightarrow>
   \<exists>i<length bs. \<exists>h. Pop_loop None 0 bs = Inr (Some (i, Some h)) \<and>
      heaviestTipSet (Some (bs ! i)) = Some h \<and>
      (\<forall>j<length bs. \<forall>hj. heaviestTipSet (Some (bs ! j)) = Some hj \<longrightarrow> ParentWeight hj \<le> ParentWeight h) \<and>
      (\<forall>j<i. \<forall>hj. heaviestTipSet (Some (bs ! j)) = Some hj \<longrightarrow> ParentWeight hj < ParentWeight h)"
proof (induction bs rule: rev_induct)
  case Nil
  then show ?case by simp
next
  case (snoc b bs)
  from snoc.prems obtain hb where hb: "heaviestTipSet (Some b) = Some hb"
    using heaviestTipSet_Some[of b] by auto
  show ?case
  proof (cases "bs = []")
    case True
    then show ?thesis using hb by (simp add: Let_def)
  next
    case False
    with snoc obtain i h where i: "i < length bs"
      "Pop_loop None 0 bs = Inr (Some (i, Some h))"
      "heaviestTipSet (Some (bs ! i)) = Some h"
      "\<forall>j<length bs. \<forall>hj. heaviestTipSet (Some (bs ! j)) = Some hj \<longrightarrow> ParentWeight hj \<le> ParentWeight h"
      "\<forall>j<i. \<forall>hj. heaviestTipSet (Some (bs ! j)) = Some hj \<longrightarrow> ParentWeight hj < ParentWeight h"
      by auto
    show ?thesis
    proof (cases "ParentWeight h < ParentWeight hb")
      case True
      have "Pop_loop None 0 (bs @ [b]) = Inr (Some (length bs, Some hb))"
        using i hb True by (simp add: Pop_loop_snoc Pop_step_def)
      moreover have "heaviestTipSet (Some ((bs @ [b]) ! length bs)) = Some hb"
        using hb by simp
      moreover have "\<forall>j<length (bs @ [b]). \<forall>hj. heaviestTipSet (Some ((bs @ [b]) ! j)) = Some hj \<longrightarrow> ParentWeight hj \<le> ParentWeight hb"
        using i(4) hb True by (auto simp: nth_append less_Suc_eq)
      moreover have "\<forall>j<length bs. \<forall>hj. heaviestTipSet (Some ((bs @ [b]) ! j)) = Some hj \<longrightarrow> ParentWeight hj < ParentWeight hb"
        using i(4) True by (auto simp: nth_append)
      ultimately show ?thesis
        by (intro exI[of _ "length bs"]) simp
    next
      case False
      have "Pop_loop None 0 (bs @ [b]) = Inr (Some (i, Some h))"
        using i hb False by (simp add: Pop_loop_snoc Pop_step_def)
      moreover have "heaviestTipSet (Some ((bs @ [b]) ! i)) = Some h"
        using i by (simp add: nth_append)
      moreover have "\<forall>j<length (bs @ [b]). \<forall>hj. heaviestTipSet (Some ((bs @ [b]) ! j)) = Some hj \<longrightarrow> ParentWeight hj \<le> ParentWeight h"
        using i(4) hb False by (auto simp: nth_append less_Suc_eq)
      moreover have "\<forall>j<i. \<forall>hj. heaviestTipSet (Some ((bs @ [b]) ! j)) = Some hj \<longrightarrow> ParentWeight hj < ParentWeight h"
        using i(1,5) by (auto simp: nth_append)
      ultimately show ?thesis using i(1)
        by (intro exI[of _ i]) simp
    qed
  qed
qed

lemma Pop_nonempty:
  assumes "bs \<noteq> []" "\<forall>b\<in>set bs. tips b \<noteq> []"
  shows "\<exists>i<length bs. \<exists>h. Pop bs = Inr (Some (bs ! i), take i bs @ drop (Suc i) bs) \<and>
      heaviestTipSet (Some (bs ! i)) = Some h \<and>
      (\<forall>j<length bs. \<forall>hj. heaviestTipSet (Some (bs ! j)) = Some hj \<longrightarrow> ParentWeight hj \<le> ParentWeight h) \<and>
      (\<forall>j<i. \<forall>hj. heaviestTipSet (Some (bs ! j)) = Some hj \<longrightarrow> ParentWeight hj < ParentWeight h)"
proof -
  from Pop_loop_first_max[OF assms] obtain i h where i: "i < length bs"
      "Pop_loop None 0 bs = Inr (Some (i, Some h))"
      "heaviestTipSet (Some (bs ! i)) = Some h"
      "\<forall>j<length bs. \<forall>hj. heaviestTipSet (Some (bs ! j)) = Some hj \<longrightarrow> ParentWeight hj \<le> ParentWeight h"
      "\<forall>j<i. \<forall>hj. heaviestTipSet (Some (bs ! j)) = Some hj \<longrightarrow> ParentWeight hj < ParentWeight h"
    by blast
  have "Pop bs = Inr (Some (bs ! i), take i bs @ drop (Suc i) bs)"
    using i(2) assms(1) by (simp add: Pop_def removeBucket_def)
  with i show ?thesis by blast
qed

text \<open>
  C5. On a set that is not empty and whose buckets all have tips, Pop returns the bucket
  at the first index whose heaviest tip set has the greatest ParentWeight, and leaves the
  other buckets in their order. The choice is by ParentWeight alone: the heaviest tip set
  of every bucket weighs at most that of the chosen one, and strictly less in every bucket
  before it, so that of several buckets of greatest weight the first stays. In the same
  way heaviestTipSet returns the first tip set of greatest weight of its bucket.
\<close>

theorem Pop_removes_first_heaviest_bucket:
  assumes "bs \<noteq> []" and "\<forall>b\<in>set bs. tips b \<noteq> []"
  shows "(\<exists>i<length bs. \<exists>h.
            Pop bs = Inr (Some (bs ! i), take i bs @ drop (Suc i) bs) \<and>
            heaviestTipSet (Some (bs ! i)) = Some h \<and>
            (\<forall>j<length bs. \<forall>hj. heaviestTipSet (Some (bs ! j)) = Some hj
                \<longrightarrow> ParentWeight hj \<le> ParentWeight h) \<and>
            (\<forall>j<i. \<forall>hj. heaviestTipSet (Some (bs ! j)) = Some hj
                \<longrightarrow> ParentWeight hj < ParentWeight h))
       \<and> (\<forall>b\<in>set bs. \<exists>k<length (tips b).
            heaviestTipSet (Some b) = Some (tips b ! k) \<and>
            (\<forall>m<length (tips b). ParentWeight (tips b ! m) \<le> ParentWeight (tips b ! k)) \<and>
            (\<forall>m<k. ParentWeight (tips b ! m) < ParentWeight (tips b ! k)))"
proof
  show "\<exists>i<length bs. \<exists>h.
            Pop bs = Inr (Some (bs ! i), take i bs @ drop (Suc i) bs) \<and>
            heaviestTipSet (Some (bs ! i)) = Some h \<and>
            (\<forall>j<length bs. \<forall>hj. heaviestTipSet (Some (bs ! j)) = Some hj
                \<longrightarrow> ParentWeight hj \<le> ParentWeight h) \<and>
            (\<forall>j<i. \<forall>hj. heaviestTipSet (Some (bs ! j)) = Some hj
                \<longrightarrow> ParentWeight hj < ParentWeight h)"
    using assms by (rule Pop_nonempty)
next
  show "\<forall>b\<in>set bs. \<exists>k<length (tips b).
            heaviestTipSet (Some b) = Some (tips b ! k) \<and>
            (\<forall>m<length (tips b). ParentWeight (tips b ! m) \<le> ParentWeight (tips b ! k)) \<and>
            (\<forall>m<k. ParentWeight (tips b ! m) < ParentWeight (tips b ! k))"
  proof
    fix b assume "b \<in> set bs"
    with assms(2) have "tips b \<noteq> []" by blast
    then show "\<exists>k<length (tips b).
            heaviestTipSet (Some b) = Some (tips b ! k) \<and>
            (\<forall>m<length (tips b). ParentWeight (tips b ! m) \<le> ParentWeight (tips b ! k)) \<and>
            (\<forall>m<k. ParentWeight (tips b ! m) < ParentWeight (tips b ! k))"
      using heaviestTipSet_loop_first_max[of "tips b"] by (simp add: heaviestTipSet_def)
  qed
qed

theorem Pop_removes_first_heaviest_bucket_witness:
  "Pop [\<lparr>tips = [ex_U], count = 1\<rparr>, \<lparr>tips = [ex_T0, ex_T1], count = 2\<rparr>,
        \<lparr>tips = [ex_T1], count = 1\<rparr>]
     = Inr (Some \<lparr>tips = [ex_T0, ex_T1], count = 2\<rparr>,
            [\<lparr>tips = [ex_U], count = 1\<rparr>, \<lparr>tips = [ex_T1], count = 1\<rparr>])
   \<and> heaviestTipSet (Some \<lparr>tips = [ex_T0, ex_T1], count = 2\<rparr>) = Some ex_T1"
  using Pop_removes_first_heaviest_bucket
          [of "[\<lparr>tips = [ex_U], count = 1\<rparr>, \<lparr>tips = [ex_T0, ex_T1], count = 2\<rparr>,
                \<lparr>tips = [ex_T1], count = 1\<rparr>]"]
  by (simp add: Pop_def removeBucket_def heaviestTipSet_def ex_defs)

section \<open>Removal from a bucket set\<close>

lemma bucketsNonEmpty_iff: "bucketsNonEmpty bs = (\<forall>b\<in>set bs. tips b \<noteq> [])"
  by (simp add: bucketsNonEmpty_def list_all_iff)

lemma Insert_not_Nil: "Insert ts bs \<noteq> []"
  by (cases bs) auto

lemma bucketsNonEmpty_Insert: "bucketsNonEmpty bs \<Longrightarrow> bucketsNonEmpty (Insert ts bs)"
  by (induction bs) (auto simp: bucketsNonEmpty_def tips_add)

lemma bucketsNonEmpty_remove:
  "bucketsNonEmpty bs \<Longrightarrow> bucketsNonEmpty (take i bs @ drop (Suc i) bs)"
  by (auto simp: bucketsNonEmpty_iff dest: in_set_takeD in_set_dropD)

lemma Pop_loop_not_makeslice: "Pop_loop best i bs \<noteq> Inl MakesliceCapOutOfRange"
  by (induction bs arbitrary: best i) (auto simp: Let_def split: option.splits)

lemma Pop_makeslice_iff: "Pop bs = Inl MakesliceCapOutOfRange \<longleftrightarrow> bs = []"
proof (cases "bs = []")
  case True
  then show ?thesis by (simp add: Pop_def removeBucket_def)
next
  case False
  then have "\<exists>r. removeBucket t bs = Inr r" for t
    by (simp add: removeBucket_def)
  then show ?thesis
    using False Pop_loop_not_makeslice[of None 0 bs]
    by (cases "Pop_loop None 0 bs"; cases "removeBucket (map_option fst (projr (Pop_loop None 0 bs))) bs")
       (auto simp: Pop_def removeBucket_def split: sum.splits)
qed

lemma Pop_invariant:
  assumes "bs \<noteq> []" "bucketsNonEmpty bs"
  shows "\<exists>b rest. Pop bs = Inr (Some b, rest) \<and> tips b \<noteq> [] \<and> bucketsNonEmpty rest"
proof -
  from assms have ne: "\<forall>b\<in>set bs. tips b \<noteq> []" by (simp add: bucketsNonEmpty_iff)
  from Pop_nonempty[OF assms(1) ne] obtain i where
    i: "i < length bs" "Pop bs = Inr (Some (bs ! i), take i bs @ drop (Suc i) bs)" by blast
  have "tips (bs ! i) \<noteq> []" using ne i(1) by simp
  with i assms(2) show ?thesis using bucketsNonEmpty_remove by blast
qed

lemma PopRelated_loop_None:
  "PopRelated_loop ts n bs = None \<longleftrightarrow> (\<forall>b\<in>set bs. \<not> sameChainAs b ts)"
  by (induction bs arbitrary: n) auto

lemma PopRelated_loop_Some:
  "PopRelated_loop ts n bs = Some k \<Longrightarrow>
     n \<le> k \<and> k - n < length bs \<and> sameChainAs (bs ! (k - n)) ts \<and>
     (\<forall>j<k - n. \<not> sameChainAs (bs ! j) ts)"
proof (induction bs arbitrary: n)
  case Nil
  then show ?case by simp
next
  case (Cons b bs)
  show ?case
  proof (cases "sameChainAs b ts")
    case True
    with Cons.prems show ?thesis by simp
  next
    case False
    with Cons.prems have "PopRelated_loop ts (Suc n) bs = Some k" by simp
    from Cons.IH[OF this] have ih: "Suc n \<le> k" "k - Suc n < length bs"
      "sameChainAs (bs ! (k - Suc n)) ts" "\<forall>j<k - Suc n. \<not> sameChainAs (bs ! j) ts"
      by auto
    have eq: "k - n = Suc (k - Suc n)" using ih(1) by simp
    have "\<forall>j<k - n. \<not> sameChainAs ((b # bs) ! j) ts"
    proof (intro allI impI)
      fix j assume "j < k - n"
      then show "\<not> sameChainAs ((b # bs) ! j) ts"
        using False ih(4) eq by (cases j) auto
    qed
    then show ?thesis using ih eq by simp
  qed
qed

lemma PopRelated_unrelated:
  "\<forall>b\<in>set bs. \<not> sameChainAs b ts \<Longrightarrow> PopRelated ts bs = Inr (None, bs)"
  by (simp add: PopRelated_def PopRelated_loop_None[THEN iffD2])

lemma PopRelated_related:
  assumes "\<exists>b\<in>set bs. sameChainAs b ts"
  shows "\<exists>i<length bs. sameChainAs (bs ! i) ts \<and> (\<forall>j<i. \<not> sameChainAs (bs ! j) ts) \<and>
           PopRelated ts bs = Inr (Some (bs ! i), take i bs @ drop (Suc i) bs)"
proof -
  from assms have "PopRelated_loop ts 0 bs \<noteq> None" by (simp add: PopRelated_loop_None)
  then obtain k where k: "PopRelated_loop ts 0 bs = Some k" by auto
  from PopRelated_loop_Some[OF k] have p: "k < length bs" "sameChainAs (bs ! k) ts"
    "\<forall>j<k. \<not> sameChainAs (bs ! j) ts" by auto
  have "PopRelated ts bs = Inr (Some (bs ! k), take k bs @ drop (Suc k) bs)"
    using k p(1) by (auto simp: PopRelated_def removeBucket_def)
  with p show ?thesis by blast
qed

lemma PopRelated_invariant:
  assumes "bucketsNonEmpty bs"
  shows "\<exists>r rest. PopRelated ts bs = Inr (r, rest) \<and> bucketsNonEmpty rest \<and>
           (\<forall>b. r = Some b \<longrightarrow> tips b \<noteq> [])"
proof (cases "\<exists>b\<in>set bs. sameChainAs b ts")
  case True
  from PopRelated_related[OF True] obtain i where i: "i < length bs"
    "PopRelated ts bs = Inr (Some (bs ! i), take i bs @ drop (Suc i) bs)" by blast
  have "tips (bs ! i) \<noteq> []" using assms i(1) by (simp add: bucketsNonEmpty_iff)
  with i assms show ?thesis using bucketsNonEmpty_remove by auto
next
  case False
  then show ?thesis using assms by (simp add: PopRelated_unrelated)
qed

section \<open>The control loop never panics\<close>

lemma scheduleIncoming_invariant:
  assumes "schedulerInv sm"
  shows "\<exists>sm'. scheduleIncoming acts ts sm = Inr sm' \<and> schedulerInv sm'"
proof (cases "relatedToActiveSync_loop ts False acts")
  case True
  then show ?thesis using assms
    by (auto simp: scheduleIncoming_def schedulerInv_def bucketsNonEmpty_Insert
          split: option.splits)
next
  case notrel: False
  show ?thesis
  proof (cases "nextSyncTarget sm")
    case None
    have "Insert ts (syncQueue sm) \<noteq> []" by (rule Insert_not_Nil)
    moreover have "bucketsNonEmpty (Insert ts (syncQueue sm))"
      using assms by (simp add: schedulerInv_def bucketsNonEmpty_Insert)
    ultimately obtain b rest where
      "Pop (Insert ts (syncQueue sm)) = Inr (Some b, rest)" "tips b \<noteq> []" "bucketsNonEmpty rest"
      using Pop_invariant by blast
    then show ?thesis using assms notrel None
      by (simp add: scheduleIncoming_def schedulerInv_def)
  next
    case (Some nst)
    then show ?thesis using assms notrel
      by (auto simp: scheduleIncoming_def schedulerInv_def bucketsNonEmpty_Insert tips_add Let_def)
  qed
qed

lemma scheduleProcessResult_invariant:
  assumes "schedulerInv sm"
  shows "\<exists>sm'. scheduleProcessResult res sm = Inr sm' \<and> schedulerInv sm'"
proof -
  from assms have "bucketsNonEmpty (activeSyncTips sm)" by (simp add: schedulerInv_def)
  from PopRelated_invariant[OF this, of "result_ts res"] obtain r rest where
    r: "PopRelated (result_ts res) (activeSyncTips sm) = Inr (r, rest)" "bucketsNonEmpty rest"
       "\<forall>b. r = Some b \<longrightarrow> tips b \<noteq> []" by blast
  show ?thesis using assms r
    by (cases r; cases "nextSyncTarget sm")
       (auto simp: scheduleProcessResult_def schedulerInv_def Let_def bucketsNonEmpty_def)
qed

lemma scheduleWorkSent_invariant:
  assumes "schedulerInv sm" "workerChan sm = syncTargets"
  shows "\<exists>sm'. scheduleWorkSent sm = Inr sm' \<and> schedulerInv sm'"
proof -
  from assms obtain b where b: "nextSyncTarget sm = Some b" "tips b \<noteq> []"
    by (cases "nextSyncTarget sm") (auto simp: schedulerInv_def)
  then obtain h where h: "heaviestTipSet (nextSyncTarget sm) = Some h"
    using heaviestTipSet_Some[of b] by auto
  show ?thesis
  proof (cases "syncQueue sm = []")
    case True
    then show ?thesis using assms(1) h
      by (simp add: scheduleWorkSent_def schedulerInv_def Let_def bucketsNonEmpty_def)
  next
    case False
    moreover have "bucketsNonEmpty (syncQueue sm)" using assms(1) by (simp add: schedulerInv_def)
    ultimately obtain nb rest where
      "Pop (syncQueue sm) = Inr (Some nb, rest)" "tips nb \<noteq> []" "bucketsNonEmpty rest"
      using Pop_invariant by blast
    then show ?thesis using assms h False
      by (simp add: scheduleWorkSent_def schedulerInv_def Let_def)
  qed
qed

lemma schedule_invariant:
  "schedulerInv sm \<Longrightarrow> enabled sm e \<Longrightarrow> \<exists>sm'. schedule e sm = Inr sm' \<and> schedulerInv sm'"
  by (cases e)
     (auto simp: scheduleIncoming_invariant scheduleProcessResult_invariant
        scheduleWorkSent_invariant)

lemma schedulerInv_New: "schedulerInv NewSyncManager"
  by (simp add: schedulerInv_def NewSyncManager_def bucketsNonEmpty_def)

lemma syncScheduler_invariant:
  "schedulerInv sm \<Longrightarrow> feasible sm es \<Longrightarrow> \<exists>sm'. syncScheduler es sm = Inr sm' \<and> schedulerInv sm'"
proof (induction es arbitrary: sm)
  case Nil
  then show ?case by simp
next
  case (Cons e es)
  show ?case
  proof (cases "e = Stop")
    case True
    then show ?thesis using Cons.prems by simp
  next
    case False
    then have en: "enabled sm e" using Cons.prems(2) by (cases e) auto
    from schedule_invariant[OF Cons.prems(1) en] obtain sm1 where
      s: "schedule e sm = Inr sm1" "schedulerInv sm1" by blast
    have "feasible sm1 es" using Cons.prems(2) False s(1) by (cases e) auto
    from Cons.IH[OF s(2) this] show ?thesis using False s(1) by (cases e) auto
  qed
qed

section \<open>Panics of Pop and worker results\<close>

lemma PopRelated_no_panic: "\<exists>r. PopRelated ts bs = Inr r"
proof (cases "\<exists>b\<in>set bs. sameChainAs b ts")
  case True
  from PopRelated_related[OF True] show ?thesis by blast
next
  case False
  then show ?thesis by (simp add: PopRelated_unrelated)
qed

lemma scheduleIncoming_not_makeslice:
  "scheduleIncoming acts ts sm \<noteq> Inl MakesliceCapOutOfRange"
proof -
  have "Pop (Insert ts (syncQueue sm)) \<noteq> Inl MakesliceCapOutOfRange"
    by (simp add: Pop_makeslice_iff Insert_not_Nil)
  then show ?thesis
    by (auto simp: scheduleIncoming_def Let_def split: sum.splits option.splits)
qed

lemma scheduleWorkSent_not_makeslice:
  "scheduleWorkSent sm \<noteq> Inl MakesliceCapOutOfRange"
  by (auto simp: scheduleWorkSent_def Let_def Pop_makeslice_iff split: sum.splits option.splits)

lemma scheduleProcessResult_no_panic: "scheduleProcessResult res sm \<noteq> Inl p"
  using PopRelated_no_panic[of "result_ts res" "activeSyncTips sm"]
  by (auto simp: scheduleProcessResult_def Let_def split: sum.splits option.splits)

text \<open>
  C9. Pop on an empty set panics: no best bucket is found, and removeBucket makes a slice of
  capacity -1. Pop raises this panic on the empty set only. The control loop calls Pop on
  the queue right after an Insert, which leaves no set empty, or under the test that the
  queue has a bucket; so none of its three handlers raises the panic, in whatever state,
  and no sequence of events the loop can take from the state NewSyncManager builds ends
  in a panic.
\<close>

theorem Pop_on_empty_set_panics_and_is_not_reached:
  "Pop [] = Inl MakesliceCapOutOfRange
   \<and> (Pop bs = Inl MakesliceCapOutOfRange \<longleftrightarrow> bs = [])
   \<and> Insert ts bs \<noteq> []
   \<and> scheduleIncoming acts ts sm \<noteq> Inl MakesliceCapOutOfRange
   \<and> scheduleWorkSent sm \<noteq> Inl MakesliceCapOutOfRange
   \<and> scheduleProcessResult res sm \<noteq> Inl MakesliceCapOutOfRange
   \<and> (feasible NewSyncManager es \<longrightarrow> (\<exists>sm'. syncScheduler es NewSyncManager = Inr sm'))"
  using Pop_makeslice_iff[of bs] Pop_makeslice_iff[of "[]"] Insert_not_Nil[of ts bs]
    scheduleIncoming_not_makeslice[of acts ts sm] scheduleWorkSent_not_makeslice[of sm]
    scheduleProcessResult_no_panic[of res sm MakesliceCapOutOfRange]
    syncScheduler_invariant[OF schedulerInv_New, of es]
  by blast

theorem Pop_on_empty_set_panics_and_is_not_reached_witness:
  "feasible NewSyncManager
     [IncomingTipSet ex_T1 [], WorkSent, IncomingTipSet ex_T2 [ex_T1],
      SyncResult \<lparr>result_ts = ex_T1, success = True\<rparr>, WorkSent]
   \<and> syncScheduler
     [IncomingTipSet ex_T1 [], WorkSent, IncomingTipSet ex_T2 [ex_T1],
      SyncResult \<lparr>result_ts = ex_T1, success = True\<rparr>, WorkSent] NewSyncManager
     = Inr (NewSyncManager\<lparr>activeSyncs := [(Key ex_T2, ex_T2)]\<rparr>)
   \<and> Pop [] = Inl MakesliceCapOutOfRange"
  using Pop_on_empty_set_panics_and_is_not_reached
    [of "[]" ex_T1 "[]" NewSyncManager "\<lparr>result_ts = ex_T1, success = True\<rparr>"
       "[IncomingTipSet ex_T1 [], WorkSent, IncomingTipSet ex_T2 [ex_T1],
         SyncResult \<lparr>result_ts = ex_T1, success = True\<rparr>, WorkSent]"]
  by (simp add: scheduleIncoming_def scheduleWorkSent_def scheduleProcessResult_def Pop_def
        PopRelated_def removeBucket_def heaviestTipSet_def sameChainAs_def add_def
        ex_defs ex_state_defs tipset_defs)

text \<open>
  C7. scheduleProcessResult removes the key of the reported tip set from activeSyncs and
  pops the first bucket of activeSyncTips on the same chain as the tip set, when there is
  one. On success that bucket becomes nextSyncTarget when there is none (and workerChan is
  set), and is appended to syncQueue otherwise. On failure the bucket is dropped: neither
  the tip set nor the bucket is queued again. Without such a bucket only the key is
  removed.
\<close>

theorem scheduleProcessResult_frees_lineage_and_replays_overflow:
  "map_of (AList.delete (Key (result_ts res)) (activeSyncs sm))
     = (map_of (activeSyncs sm))(Key (result_ts res) := None)
   \<and> ((\<exists>i<length (activeSyncTips sm).
         sameChainAs (activeSyncTips sm ! i) (result_ts res) \<and>
         (\<forall>j<i. \<not> sameChainAs (activeSyncTips sm ! j) (result_ts res)) \<and>
         scheduleProcessResult res sm = Inr
           (if success res then
              (if nextSyncTarget sm = None
               then sm\<lparr>activeSyncs := AList.delete (Key (result_ts res)) (activeSyncs sm),
                       activeSyncTips := take i (activeSyncTips sm) @ drop (Suc i) (activeSyncTips sm),
                       nextSyncTarget := Some (activeSyncTips sm ! i),
                       workerChan := syncTargets\<rparr>
               else sm\<lparr>activeSyncs := AList.delete (Key (result_ts res)) (activeSyncs sm),
                       syncQueue := syncQueue sm @ [activeSyncTips sm ! i],
                       activeSyncTips := take i (activeSyncTips sm) @ drop (Suc i) (activeSyncTips sm)\<rparr>)
            else sm\<lparr>activeSyncs := AList.delete (Key (result_ts res)) (activeSyncs sm),
                    activeSyncTips := take i (activeSyncTips sm) @ drop (Suc i) (activeSyncTips sm)\<rparr>))
      \<or> ((\<forall>b\<in>set (activeSyncTips sm). \<not> sameChainAs b (result_ts res)) \<and>
          scheduleProcessResult res sm = Inr
            (sm\<lparr>activeSyncs := AList.delete (Key (result_ts res)) (activeSyncs sm)\<rparr>)))"
proof
  show "map_of (AList.delete (Key (result_ts res)) (activeSyncs sm))
     = (map_of (activeSyncs sm))(Key (result_ts res) := None)"
    by (rule delete_conv')
next
  let ?ts = "result_ts res" and ?bs = "activeSyncTips sm"
  show "(\<exists>i<length ?bs.
         sameChainAs (?bs ! i) ?ts \<and>
         (\<forall>j<i. \<not> sameChainAs (?bs ! j) ?ts) \<and>
         scheduleProcessResult res sm = Inr
           (if success res then
              (if nextSyncTarget sm = None
               then sm\<lparr>activeSyncs := AList.delete (Key ?ts) (activeSyncs sm),
                       activeSyncTips := take i ?bs @ drop (Suc i) ?bs,
                       nextSyncTarget := Some (?bs ! i),
                       workerChan := syncTargets\<rparr>
               else sm\<lparr>activeSyncs := AList.delete (Key ?ts) (activeSyncs sm),
                       syncQueue := syncQueue sm @ [?bs ! i],
                       activeSyncTips := take i ?bs @ drop (Suc i) ?bs\<rparr>)
            else sm\<lparr>activeSyncs := AList.delete (Key ?ts) (activeSyncs sm),
                    activeSyncTips := take i ?bs @ drop (Suc i) ?bs\<rparr>))
      \<or> ((\<forall>b\<in>set ?bs. \<not> sameChainAs b ?ts) \<and>
          scheduleProcessResult res sm = Inr
            (sm\<lparr>activeSyncs := AList.delete (Key ?ts) (activeSyncs sm)\<rparr>))"
  proof (cases "\<exists>b\<in>set ?bs. sameChainAs b ?ts")
    case True
    from PopRelated_related[OF True] obtain i where i: "i < length ?bs"
      "sameChainAs (?bs ! i) ?ts" "\<forall>j<i. \<not> sameChainAs (?bs ! j) ?ts"
      "PopRelated ?ts ?bs = Inr (Some (?bs ! i), take i ?bs @ drop (Suc i) ?bs)" by blast
    have "scheduleProcessResult res sm = Inr
           (if success res then
              (if nextSyncTarget sm = None
               then sm\<lparr>activeSyncs := AList.delete (Key ?ts) (activeSyncs sm),
                       activeSyncTips := take i ?bs @ drop (Suc i) ?bs,
                       nextSyncTarget := Some (?bs ! i),
                       workerChan := syncTargets\<rparr>
               else sm\<lparr>activeSyncs := AList.delete (Key ?ts) (activeSyncs sm),
                       syncQueue := syncQueue sm @ [?bs ! i],
                       activeSyncTips := take i ?bs @ drop (Suc i) ?bs\<rparr>)
            else sm\<lparr>activeSyncs := AList.delete (Key ?ts) (activeSyncs sm),
                    activeSyncTips := take i ?bs @ drop (Suc i) ?bs\<rparr>)"
      using i(4) by (simp add: scheduleProcessResult_def Let_def)
    with i(1-3) show ?thesis by blast
  next
    case False
    then show ?thesis
      by (simp add: scheduleProcessResult_def Let_def PopRelated_unrelated)
  qed
qed

theorem scheduleProcessResult_frees_lineage_and_replays_overflow_witness:
  "scheduleProcessResult \<lparr>result_ts = ex_T1, success = True\<rparr> ex_overflow
     = Inr (NewSyncManager\<lparr>activeSyncTips := [\<lparr>tips = [ex_T2], count = 1\<rparr>],
              nextSyncTarget := Some \<lparr>tips = [ex_X2], count = 1\<rparr>,
              workerChan := syncTargets\<rparr>)
   \<and> scheduleProcessResult \<lparr>result_ts = ex_T1, success = False\<rparr> ex_overflow
     = Inr (NewSyncManager\<lparr>activeSyncTips := [\<lparr>tips = [ex_T2], count = 1\<rparr>]\<rparr>)
   \<and> scheduleProcessResult \<lparr>result_ts = ex_T1, success = True\<rparr>
        (ex_overflow\<lparr>nextSyncTarget := Some \<lparr>tips = [ex_U], count = 1\<rparr>,
                      workerChan := syncTargets\<rparr>)
     = Inr (NewSyncManager\<lparr>activeSyncTips := [\<lparr>tips = [ex_T2], count = 1\<rparr>],
              syncQueue := [\<lparr>tips = [ex_X2], count = 1\<rparr>],
              nextSyncTarget := Some \<lparr>tips = [ex_U], count = 1\<rparr>,
              workerChan := syncTargets\<rparr>)"
  using scheduleProcessResult_frees_lineage_and_replays_overflow
          [of "\<lparr>result_ts = ex_T1, success = True\<rparr>" ex_overflow]
        scheduleProcessResult_frees_lineage_and_replays_overflow
          [of "\<lparr>result_ts = ex_T1, success = False\<rparr>" ex_overflow]
        scheduleProcessResult_frees_lineage_and_replays_overflow
          [of "\<lparr>result_ts = ex_T1, success = True\<rparr>"
              "ex_overflow\<lparr>nextSyncTarget := Some \<lparr>tips = [ex_U], count = 1\<rparr>,
                      workerChan := syncTargets\<rparr>"]
  by (simp add: scheduleProcessResult_def PopRelated_def removeBucket_def sameChainAs_def
        ex_defs ex_state_defs tipset_defs AList.delete_eq)

section \<open>Heaviest, selectSyncTarget and syncedPeerCount\<close>

lemma heaviestTipSet_max:
  assumes "tips b \<noteq> []"
  shows "\<exists>h. heaviestTipSet (Some b) = Some h \<and> h \<in> set (tips b) \<and>
           (\<forall>t\<in>set (tips b). ParentWeight t \<le> ParentWeight h)"
proof -
  from heaviestTipSet_loop_first_max[OF assms] obtain k where k: "k < length (tips b)"
    "heaviestTipSet_loop None (tips b) = Some (tips b ! k)"
    "\<forall>m<length (tips b). ParentWeight (tips b ! m) \<le> ParentWeight (tips b ! k)" by blast
  have "\<forall>t\<in>set (tips b). ParentWeight t \<le> ParentWeight (tips b ! k)"
    using k(3) by (auto simp: in_set_conv_nth)
  with k(1,2) show ?thesis by (auto simp: heaviestTipSet_def)
qed

lemma Heaviest_loop_max:
  "bucketsNonEmpty bs \<Longrightarrow>
   \<exists>h. Heaviest_loop (Some bt) bs = Inr (Some h) \<and> (h = bt \<or> h \<in> bucketTips bs) \<and>
       ParentWeight bt \<le> ParentWeight h \<and>
       (\<forall>t\<in>bucketTips bs. ParentWeight t \<le> ParentWeight h)"
proof (induction bs arbitrary: bt)
  case Nil
  then show ?case by (simp add: bucketTips_def)
next
  case (Cons b bs)
  then have ne: "tips b \<noteq> []" and rest: "bucketsNonEmpty bs"
    by (simp_all add: bucketsNonEmpty_def)
  from heaviestTipSet_max[OF ne] obtain hb where hb: "heaviestTipSet (Some b) = Some hb"
    "hb \<in> set (tips b)" "\<forall>t\<in>set (tips b). ParentWeight t \<le> ParentWeight hb" by blast
  have bt: "bucketTips (b # bs) = set (tips b) \<union> bucketTips bs"
    by (simp add: bucketTips_def)
  show ?case
  proof (cases "ParentWeight hb > ParentWeight bt")
    case True
    from Cons.IH[OF rest, of hb] obtain h where h: "Heaviest_loop (Some hb) bs = Inr (Some h)"
      "h = hb \<or> h \<in> bucketTips bs" "ParentWeight hb \<le> ParentWeight h"
      "\<forall>t\<in>bucketTips bs. ParentWeight t \<le> ParentWeight h" by blast
    have "Heaviest_loop (Some bt) (b # bs) = Inr (Some h)" using hb(1) True h(1) by simp
    moreover have "h = bt \<or> h \<in> bucketTips (b # bs)" using h(2) hb(2) bt by auto
    moreover have "ParentWeight bt \<le> ParentWeight h" using True h(3) by simp
    moreover have "\<forall>t\<in>bucketTips (b # bs). ParentWeight t \<le> ParentWeight h"
      using hb(3) h(3,4) bt by fastforce
    ultimately show ?thesis by blast
  next
    case False
    from Cons.IH[OF rest, of bt] obtain h where h: "Heaviest_loop (Some bt) bs = Inr (Some h)"
      "h = bt \<or> h \<in> bucketTips bs" "ParentWeight bt \<le> ParentWeight h"
      "\<forall>t\<in>bucketTips bs. ParentWeight t \<le> ParentWeight h" by blast
    have "Heaviest_loop (Some bt) (b # bs) = Inr (Some h)" using hb(1) False h(1) by simp
    moreover have "h = bt \<or> h \<in> bucketTips (b # bs)" using h(2) bt by auto
    moreover have "\<forall>t\<in>bucketTips (b # bs). ParentWeight t \<le> ParentWeight h"
      using hb(3) h(3,4) bt False by fastforce
    ultimately show ?thesis using h(3) by blast
  qed
qed

lemma Heaviest_max:
  assumes "bucketsNonEmpty bs" "bs \<noteq> []"
  shows "\<exists>h. Heaviest bs = Inr (Some h) \<and> h \<in> bucketTips bs \<and>
           (\<forall>t\<in>bucketTips bs. ParentWeight t \<le> ParentWeight h)"
proof -
  from assms obtain b rest where bs: "bs = b # rest" by (cases bs) auto
  with assms(1) have ne: "tips b \<noteq> []" and r: "bucketsNonEmpty rest"
    by (simp_all add: bucketsNonEmpty_def)
  from heaviestTipSet_max[OF ne] obtain hb where hb: "heaviestTipSet (Some b) = Some hb"
    "hb \<in> set (tips b)" "\<forall>t\<in>set (tips b). ParentWeight t \<le> ParentWeight hb" by blast
  from Heaviest_loop_max[OF r, of hb] obtain h where h: "Heaviest_loop (Some hb) rest = Inr (Some h)"
      "h = hb \<or> h \<in> bucketTips rest" "ParentWeight hb \<le> ParentWeight h"
      "\<forall>t\<in>bucketTips rest. ParentWeight t \<le> ParentWeight h" by blast
  have bt: "bucketTips bs = set (tips b) \<union> bucketTips rest"
    by (simp add: bucketTips_def bs)
  have "Heaviest bs = Inr (Some h)" using hb(1) h(1) by (simp add: Heaviest_def bs)
  moreover have "h \<in> bucketTips bs" using h(2) hb(2) bt by auto
  moreover have "\<forall>t\<in>bucketTips bs. ParentWeight t \<le> ParentWeight h"
    using hb(3) h(3,4) bt by fastforce
  ultimately show ?thesis by blast
qed

lemma Heaviest_Nil: "Heaviest [] = Inr None"
  by (simp add: Heaviest_def)

lemma bucketTips_Insert_subset: "bucketTips (Insert ts bs) \<subseteq> insert ts (bucketTips bs)"
  by (induction bs) (auto simp: bucketTips_def tips_add split: if_splits)

lemma bucketTips_Insert_mono: "bucketTips bs \<subseteq> bucketTips (Insert ts bs)"
  by (induction bs) (auto simp: bucketTips_def tips_add split: if_splits)

lemma bucketTips_Insert_Equals: "\<exists>m\<in>bucketTips (Insert ts bs). Equals m ts"
proof (induction bs)
  case Nil
  show ?case by (simp add: bucketTips_def Equals_def)
next
  case (Cons b bs)
  show ?case
  proof (cases "sameChainAs b ts")
    case True
    have "\<exists>m\<in>set (tips (add ts b)). Equals m ts"
      by (auto simp: tips_add Equals_def)
    then show ?thesis using True by (auto simp: bucketTips_def)
  next
    case False
    then show ?thesis using Cons by (auto simp: bucketTips_def)
  qed
qed

lemma foldl_Insert_props:
  "bucketsNonEmpty (foldl (\<lambda>buckets ts. Insert ts buckets) [] hs) \<and>
   bucketTips (foldl (\<lambda>buckets ts. Insert ts buckets) [] hs) \<subseteq> set hs \<and>
   (\<forall>t\<in>set hs. \<exists>m\<in>bucketTips (foldl (\<lambda>buckets ts. Insert ts buckets) [] hs). Equals m t) \<and>
   (hs \<noteq> [] \<longrightarrow> foldl (\<lambda>buckets ts. Insert ts buckets) [] hs \<noteq> [])"
proof (induction hs rule: rev_induct)
  case Nil
  show ?case by (simp add: bucketsNonEmpty_def bucketTips_def)
next
  case (snoc h hs)
  let ?bs = "foldl (\<lambda>buckets ts. Insert ts buckets) [] hs"
  have 1: "bucketsNonEmpty (Insert h ?bs)" using snoc by (simp add: bucketsNonEmpty_Insert)
  have 2: "bucketTips (Insert h ?bs) \<subseteq> set (hs @ [h])"
    using snoc bucketTips_Insert_subset[of h ?bs] by auto
  have 3: "\<forall>t\<in>set (hs @ [h]). \<exists>m\<in>bucketTips (Insert h ?bs). Equals m t"
  proof
    fix t assume "t \<in> set (hs @ [h])"
    then consider "t = h" | "t \<in> set hs" by auto
    then show "\<exists>m\<in>bucketTips (Insert h ?bs). Equals m t"
    proof cases
      case 1
      then show ?thesis using bucketTips_Insert_Equals[of h ?bs] by simp
    next
      case 2
      with snoc obtain m where "m \<in> bucketTips ?bs" "Equals m t" by blast
      then show ?thesis using bucketTips_Insert_mono[of ?bs h] by blast
    qed
  qed
  show ?case using 1 2 3 by (simp add: Insert_not_Nil)
qed

lemma selectSyncTarget_heaviest:
  assumes "hs \<noteq> []"
  shows "\<exists>target. selectSyncTarget hs = Inr (Some target) \<and>
           target \<in> bucketTips (foldl (\<lambda>buckets ts. Insert ts buckets) [] hs) \<and>
           target \<in> set hs \<and>
           (\<forall>t\<in>bucketTips (foldl (\<lambda>buckets ts. Insert ts buckets) [] hs).
               ParentWeight t \<le> ParentWeight target)"
proof -
  let ?bs = "foldl (\<lambda>buckets ts. Insert ts buckets) [] hs"
  have p: "bucketsNonEmpty ?bs" "bucketTips ?bs \<subseteq> set hs" "?bs \<noteq> []"
    using foldl_Insert_props[of hs] assms by auto
  from Heaviest_max[OF p(1,3)] obtain h where "Heaviest ?bs = Inr (Some h)" "h \<in> bucketTips ?bs"
    "\<forall>t\<in>bucketTips ?bs. ParentWeight t \<le> ParentWeight h" by blast
  with p(2) show ?thesis by (auto simp: selectSyncTarget_def)
qed

lemma selectSyncTarget_no_panic: "\<exists>target. selectSyncTarget hs = Inr target"
proof (cases "hs = []")
  case True
  then show ?thesis by (simp add: selectSyncTarget_def Heaviest_Nil)
next
  case False
  from selectSyncTarget_heaviest[OF False] show ?thesis by blast
qed

lemma syncedPeerCount_loop_filter:
  "syncedPeerCount_loop n al = n + int (length (filter (\<lambda>(q, t). 0 < Height t) al))"
  by (induction al arbitrary: n) auto

lemma syncedPeerCount_filter:
  "syncedPeerCount sm = int (length (filter (\<lambda>(q, t). 0 < Height t) (peerHeads sm)))"
  by (simp add: syncedPeerCount_def syncedPeerCount_loop_filter)

lemma syncedPeerCount_card:
  assumes "distinct (map fst (peerHeads sm))"
  shows "syncedPeerCount sm =
           int (card {q. \<exists>t. map_of (peerHeads sm) q = Some t \<and> 0 < Height t})"
proof -
  let ?f = "filter (\<lambda>(q, t). 0 < Height t) (peerHeads sm)"
  have d: "distinct (map fst ?f)" using assms by (rule distinct_map_filter)
  have "{q. \<exists>t. map_of (peerHeads sm) q = Some t \<and> 0 < Height t} = set (map fst ?f)"
    using assms by (auto simp: image_iff)
  then have "card {q. \<exists>t. map_of (peerHeads sm) q = Some t \<and> 0 < Height t} = length ?f"
    using d by (simp add: distinct_card del: set_map)
  then show ?thesis by (simp add: syncedPeerCount_filter)
qed

section \<open>SetPeerHead and the bootstrap threshold\<close>

lemma update_not_Nil: "AList.update p ts al \<noteq> []"
  by (cases al) auto

lemma set_update_subset: "set (AList.update k v al) \<subseteq> insert (k, v) (set al)"
  by (induction al) auto

lemma update_mem: "(k, v) \<in> set (AList.update k v al)"
  by (induction al) auto

lemma sortedPeerHeads_not_Nil:
  "sortedPeerHeads (sm\<lparr>peerHeads := AList.update p ts al\<rparr>) hs \<Longrightarrow> hs \<noteq> []"
proof
  assume a: "sortedPeerHeads (sm\<lparr>peerHeads := AList.update p ts al\<rparr>) hs" and "hs = []"
  then have "mset (map snd (AList.update p ts al)) = {#}" by (simp add: sortedPeerHeads_def)
  then show False using update_not_Nil[of p ts al] by simp
qed

lemma sortedPeerHeads_set:
  "sortedPeerHeads sm hs \<Longrightarrow> set hs = snd ` set (peerHeads sm)"
  by (metis sortedPeerHeads_def mset_eq_setD set_map)

text \<open>
  C3. SetPeerHead records the head in every case. While the manager is not bootstrapped
  and the number of peers whose recorded head has a height above 0 is below bspThresh,
  nothing is sent to the scheduler. On the call at which that number reaches bspThresh,
  one tip set is sent and bootstrapped becomes true: with the recorded heads put into
  buckets in the sorted order hs, the tip set sent is in a bucket, is a recorded head, and
  no tip set of any bucket has a greater ParentWeight; every recorded head has an equal
  tip set in a bucket. Once bootstrapped, each call sends the reported head itself.
  syncedPeerCount counts distinct peers, by their recorded heads.
\<close>

theorem SetPeerHead_bootstrap_gating:
  "(\<not> bootstrapped sm \<and>
      syncedPeerCount (sm\<lparr>peerHeads := AList.update p ts (peerHeads sm)\<rparr>) < bspThresh sm
      \<longrightarrow> SetPeerHead hs p ts sm = Inr (sm\<lparr>peerHeads := AList.update p ts (peerHeads sm)\<rparr>, []))
   \<and> (\<not> bootstrapped sm \<and>
      bspThresh sm \<le> syncedPeerCount (sm\<lparr>peerHeads := AList.update p ts (peerHeads sm)\<rparr>) \<and>
      sortedPeerHeads (sm\<lparr>peerHeads := AList.update p ts (peerHeads sm)\<rparr>) hs
      \<longrightarrow> (\<exists>target.
            SetPeerHead hs p ts sm =
              Inr (sm\<lparr>peerHeads := AList.update p ts (peerHeads sm), bootstrapped := True\<rparr>,
                   [Some target]) \<and>
            target \<in> bucketTips (foldl (\<lambda>buckets ts. Insert ts buckets) [] hs) \<and>
            target \<in> snd ` set (AList.update p ts (peerHeads sm)) \<and>
            (\<forall>t\<in>bucketTips (foldl (\<lambda>buckets ts. Insert ts buckets) [] hs).
                ParentWeight t \<le> ParentWeight target) \<and>
            (\<forall>t\<in>snd ` set (AList.update p ts (peerHeads sm)).
                \<exists>m\<in>bucketTips (foldl (\<lambda>buckets ts. Insert ts buckets) [] hs). Equals m t)))
   \<and> (bootstrapped sm
      \<longrightarrow> SetPeerHead hs p ts sm =
            Inr (sm\<lparr>peerHeads := AList.update p ts (peerHeads sm)\<rparr>, [Some ts]))
   \<and> (distinct (map fst (peerHeads sm))
      \<longrightarrow> syncedPeerCount sm =
            int (card {q. \<exists>t. map_of (peerHeads sm) q = Some t \<and> 0 < Height t}))
   \<and> map_of (AList.update p ts (peerHeads sm)) = (map_of (peerHeads sm))(p \<mapsto> ts)
   \<and> (distinct (map fst (peerHeads sm))
      \<longrightarrow> distinct (map fst (AList.update p ts (peerHeads sm))))"
proof (intro conjI impI)
  assume "\<not> bootstrapped sm \<and>
      syncedPeerCount (sm\<lparr>peerHeads := AList.update p ts (peerHeads sm)\<rparr>) < bspThresh sm"
  then show "SetPeerHead hs p ts sm = Inr (sm\<lparr>peerHeads := AList.update p ts (peerHeads sm)\<rparr>, [])"
    by (simp add: SetPeerHead_def Let_def)
next
  let ?sm1 = "sm\<lparr>peerHeads := AList.update p ts (peerHeads sm)\<rparr>"
  let ?bs = "foldl (\<lambda>buckets ts. Insert ts buckets) [] hs"
  assume a: "\<not> bootstrapped sm \<and> bspThresh sm \<le> syncedPeerCount ?sm1 \<and> sortedPeerHeads ?sm1 hs"
  then have ne: "hs \<noteq> []" using sortedPeerHeads_not_Nil by blast
  have seths: "set hs = snd ` set (AList.update p ts (peerHeads sm))"
    using a sortedPeerHeads_set[of ?sm1 hs] by simp
  from selectSyncTarget_heaviest[OF ne] obtain target where t:
    "selectSyncTarget hs = Inr (Some target)" "target \<in> bucketTips ?bs" "target \<in> set hs"
    "\<forall>t\<in>bucketTips ?bs. ParentWeight t \<le> ParentWeight target" by blast
  have "SetPeerHead hs p ts sm = Inr (?sm1\<lparr>bootstrapped := True\<rparr>, [Some target])"
    using a t(1) by (simp add: SetPeerHead_def Let_def)
  moreover have "\<forall>t\<in>snd ` set (AList.update p ts (peerHeads sm)). \<exists>m\<in>bucketTips ?bs. Equals m t"
    using foldl_Insert_props[of hs] seths by simp
  ultimately show "\<exists>target.
            SetPeerHead hs p ts sm =
              Inr (sm\<lparr>peerHeads := AList.update p ts (peerHeads sm), bootstrapped := True\<rparr>,
                   [Some target]) \<and>
            target \<in> bucketTips ?bs \<and>
            target \<in> snd ` set (AList.update p ts (peerHeads sm)) \<and>
            (\<forall>t\<in>bucketTips ?bs. ParentWeight t \<le> ParentWeight target) \<and>
            (\<forall>t\<in>snd ` set (AList.update p ts (peerHeads sm)). \<exists>m\<in>bucketTips ?bs. Equals m t)"
    using t(2,3,4) seths by auto
next
  assume "bootstrapped sm"
  then show "SetPeerHead hs p ts sm = Inr (sm\<lparr>peerHeads := AList.update p ts (peerHeads sm)\<rparr>, [Some ts])"
    by (simp add: SetPeerHead_def Let_def)
next
  assume "distinct (map fst (peerHeads sm))"
  then show "syncedPeerCount sm = int (card {q. \<exists>t. map_of (peerHeads sm) q = Some t \<and> 0 < Height t})"
    by (rule syncedPeerCount_card)
next
  show "map_of (AList.update p ts (peerHeads sm)) = (map_of (peerHeads sm))(p \<mapsto> ts)"
    by (rule update_conv')
next
  assume "distinct (map fst (peerHeads sm))"
  then show "distinct (map fst (AList.update p ts (peerHeads sm)))"
    by (rule distinct_update)
qed

theorem SetPeerHead_bootstrap_gating_witness:
  "SetPeerHead [ex_T1] ''A'' ex_T1 (NewSyncManager\<lparr>bspThresh := 2\<rparr>)
     = Inr (NewSyncManager\<lparr>bspThresh := 2, peerHeads := [(''A'', ex_T1)]\<rparr>, [])
   \<and> SetPeerHead [ex_T1, ex_T2] ''B'' ex_T2
        (NewSyncManager\<lparr>bspThresh := 2, peerHeads := [(''A'', ex_T1)]\<rparr>)
     = Inr (NewSyncManager\<lparr>bspThresh := 2, peerHeads := [(''A'', ex_T1), (''B'', ex_T2)],
              bootstrapped := True\<rparr>, [Some ex_T2])
   \<and> SetPeerHead [] ''A'' ex_U
        (NewSyncManager\<lparr>bspThresh := 2, peerHeads := [(''A'', ex_T1), (''B'', ex_T2)],
              bootstrapped := True\<rparr>)
     = Inr (NewSyncManager\<lparr>bspThresh := 2, peerHeads := [(''A'', ex_U), (''B'', ex_T2)],
              bootstrapped := True\<rparr>, [Some ex_U])
   \<and> syncedPeerCount (NewSyncManager\<lparr>peerHeads := [(''A'', ex_T1), (''B'', ex_T2)]\<rparr>) = 2"
  using SetPeerHead_bootstrap_gating
          [of "NewSyncManager\<lparr>bspThresh := 2\<rparr>" "''A''" ex_T1 "[ex_T1]"]
        SetPeerHead_bootstrap_gating
          [of "NewSyncManager\<lparr>bspThresh := 2, peerHeads := [(''A'', ex_T1)]\<rparr>" "''B''" ex_T2
              "[ex_T1, ex_T2]"]
        SetPeerHead_bootstrap_gating
          [of "NewSyncManager\<lparr>bspThresh := 2, peerHeads := [(''A'', ex_T1), (''B'', ex_T2)],
              bootstrapped := True\<rparr>" "''A''" ex_U "[]"]
  by (simp add: SetPeerHead_def syncedPeerCount_def selectSyncTarget_def Heaviest_def
        heaviestTipSet_def sameChainAs_def add_def ex_defs ex_state_defs tipset_defs)

lemma SetPeerHead_bspThresh:
  "SetPeerHead hs p ts sm = Inr (sm', out) \<Longrightarrow> bspThresh sm' = bspThresh sm"
  by (auto simp: SetPeerHead_def Let_def split: if_splits sum.splits)

lemma schedule_bspThresh:
  "schedule e sm = Inr sm' \<Longrightarrow> bspThresh sm' = bspThresh sm"
  by (cases e)
     (auto simp: scheduleIncoming_def scheduleProcessResult_def scheduleWorkSent_def Let_def
        split: if_splits sum.splits option.splits prod.splits)

text \<open>Reports of heads of height 0 leave a manager with threshold 1 waiting.\<close>

lemma SetPeerHeads_height_zero:
  assumes "\<forall>(hs', q, t)\<in>set rs. Height t = 0"
    and "\<not> bootstrapped sm" "bspThresh sm = 1" "\<forall>(q, t)\<in>set (peerHeads sm). Height t = 0"
  shows "\<exists>sm'. SetPeerHeads rs sm = Inr (sm', []) \<and> \<not> bootstrapped sm' \<and> bspThresh sm' = 1 \<and>
           (\<forall>(q, t)\<in>set (peerHeads sm'). Height t = 0)"
  using assms
proof (induction rs arbitrary: sm)
  case Nil
  then show ?case by simp
next
  case (Cons r rs)
  obtain hs p ts where r: "r = (hs, p, ts)" by (cases r) auto
  let ?sm1 = "sm\<lparr>peerHeads := AList.update p ts (peerHeads sm)\<rparr>"
  have h0: "Height ts = 0" using Cons.prems(1) r by simp
  have all0: "\<forall>(q, t)\<in>set (peerHeads ?sm1). Height t = 0"
    using Cons.prems(4) h0 set_update_subset[of p ts "peerHeads sm"] by auto
  then have "filter (\<lambda>(q, t). 0 < Height t) (peerHeads ?sm1) = []"
    by (auto simp: filter_empty_conv)
  then have "syncedPeerCount ?sm1 = 0" by (simp add: syncedPeerCount_filter)
  then have step: "SetPeerHead hs p ts sm = Inr (?sm1, [])"
    using Cons.prems(2,3) by (simp add: SetPeerHead_def Let_def)
  have "\<exists>sm'. SetPeerHeads rs ?sm1 = Inr (sm', []) \<and> \<not> bootstrapped sm' \<and> bspThresh sm' = 1 \<and>
           (\<forall>(q, t)\<in>set (peerHeads sm'). Height t = 0)"
    using Cons.prems all0 by (intro Cons.IH) auto
  then show ?case using step r by auto
qed

lemma syncedPeerCount_update_pos:
  "0 < Height ts \<Longrightarrow> 1 \<le> syncedPeerCount (sm\<lparr>peerHeads := AList.update p ts (peerHeads sm)\<rparr>)"
proof -
  assume h: "0 < Height ts"
  have "(p, ts) \<in> set (AList.update p ts (peerHeads sm))"
    by (rule update_mem)
  then have "(p, ts) \<in> set (filter (\<lambda>(q, t). 0 < Height t) (AList.update p ts (peerHeads sm)))"
    using h by simp
  then have "filter (\<lambda>(q, t). 0 < Height t) (AList.update p ts (peerHeads sm)) \<noteq> []"
    by (metis empty_iff empty_set)
  then have "0 < length (filter (\<lambda>(q, t). 0 < Height t) (AList.update p ts (peerHeads sm)))"
    by simp
  then show ?thesis by (simp add: syncedPeerCount_filter Suc_le_eq)
qed

text \<open>
  C10. The manager NewSyncManager builds has threshold 1, not the constant
  BootstrapPeerThreshold, which is 2; no call of SetPeerHead and no step of the scheduler
  changes the threshold. So after any reports of heads of height 0, which send nothing and
  leave the manager waiting, the first report of a head of height above 0 selects the sync
  target, sends it, and sets bootstrapped.
\<close>

theorem constructor_threshold_is_one:
  "bspThresh NewSyncManager = 1 \<and> BootstrapPeerThreshold = 2
   \<and> bspThresh NewSyncManager \<noteq> BootstrapPeerThreshold
   \<and> (\<forall>sm' out. SetPeerHead hs p ts sm = Inr (sm', out) \<longrightarrow> bspThresh sm' = bspThresh sm)
   \<and> (\<forall>sm'. schedule e sm = Inr sm' \<longrightarrow> bspThresh sm' = bspThresh sm)
   \<and> ((\<forall>(hs', q, t)\<in>set rs. Height t = 0) \<and> 0 < Height ts \<and> hs \<noteq> []
      \<longrightarrow> (\<exists>sm0 target.
            SetPeerHeads rs NewSyncManager = Inr (sm0, []) \<and> \<not> bootstrapped sm0 \<and>
            SetPeerHead hs p ts sm0 =
              Inr (sm0\<lparr>peerHeads := AList.update p ts (peerHeads sm0), bootstrapped := True\<rparr>,
                   [Some target]) \<and>
            selectSyncTarget hs = Inr (Some target)))"
proof (intro conjI allI impI)
  show "bspThresh NewSyncManager = 1" by (simp add: NewSyncManager_def)
  show "BootstrapPeerThreshold = 2" by (simp add: BootstrapPeerThreshold_def)
  show "bspThresh NewSyncManager \<noteq> BootstrapPeerThreshold"
    by (simp add: NewSyncManager_def BootstrapPeerThreshold_def)
next
  fix sm' out assume "SetPeerHead hs p ts sm = Inr (sm', out)"
  then show "bspThresh sm' = bspThresh sm" by (rule SetPeerHead_bspThresh)
next
  fix sm' assume "schedule e sm = Inr sm'"
  then show "bspThresh sm' = bspThresh sm" by (rule schedule_bspThresh)
next
  assume a: "(\<forall>(hs', q, t)\<in>set rs. Height t = 0) \<and> 0 < Height ts \<and> hs \<noteq> []"
  have "\<exists>sm'. SetPeerHeads rs NewSyncManager = Inr (sm', []) \<and> \<not> bootstrapped sm' \<and>
          bspThresh sm' = 1 \<and> (\<forall>(q, t)\<in>set (peerHeads sm'). Height t = 0)"
    using a by (intro SetPeerHeads_height_zero) (auto simp: NewSyncManager_def)
  then obtain sm0 where sm0: "SetPeerHeads rs NewSyncManager = Inr (sm0, [])"
    "\<not> bootstrapped sm0" "bspThresh sm0 = 1" by blast
  from a selectSyncTarget_heaviest[of hs] obtain target where
    t: "selectSyncTarget hs = Inr (Some target)" by blast
  have "1 \<le> syncedPeerCount (sm0\<lparr>peerHeads := AList.update p ts (peerHeads sm0)\<rparr>)"
    using a by (simp add: syncedPeerCount_update_pos)
  then have "SetPeerHead hs p ts sm0 =
              Inr (sm0\<lparr>peerHeads := AList.update p ts (peerHeads sm0), bootstrapped := True\<rparr>,
                   [Some target])"
    using sm0 t by (simp add: SetPeerHead_def Let_def)
  with sm0 t show "\<exists>sm0 target.
            SetPeerHeads rs NewSyncManager = Inr (sm0, []) \<and> \<not> bootstrapped sm0 \<and>
            SetPeerHead hs p ts sm0 =
              Inr (sm0\<lparr>peerHeads := AList.update p ts (peerHeads sm0), bootstrapped := True\<rparr>,
                   [Some target]) \<and>
            selectSyncTarget hs = Inr (Some target)" by blast
qed

theorem constructor_threshold_is_one_witness:
  "SetPeerHeads [([ex_T0\<lparr>Height := 0\<rparr>], ''A'', ex_T0\<lparr>Height := 0\<rparr>)] NewSyncManager
     = Inr (NewSyncManager\<lparr>peerHeads := [(''A'', ex_T0\<lparr>Height := 0\<rparr>)]\<rparr>, [])
   \<and> SetPeerHead [ex_T0\<lparr>Height := 0\<rparr>, ex_T1] ''B'' ex_T1
        (NewSyncManager\<lparr>peerHeads := [(''A'', ex_T0\<lparr>Height := 0\<rparr>)]\<rparr>)
     = Inr (NewSyncManager\<lparr>peerHeads := [(''A'', ex_T0\<lparr>Height := 0\<rparr>), (''B'', ex_T1)],
              bootstrapped := True\<rparr>, [Some ex_T1])"
  using constructor_threshold_is_one
          [of "[ex_T0\<lparr>Height := 0\<rparr>, ex_T1]" "''B''" ex_T1 NewSyncManager Stop
              "[([ex_T0\<lparr>Height := 0\<rparr>], ''A'', ex_T0\<lparr>Height := 0\<rparr>)]"]
  by (simp add: BootstrapPeerThreshold_def SetPeerHead_def syncedPeerCount_def selectSyncTarget_def Heaviest_def
        heaviestTipSet_def sameChainAs_def add_def ex_defs ex_state_defs tipset_defs)

section \<open>Tip sets related to an active sync\<close>

lemma relatedToActiveSync_loop_no_equal:
  "\<forall>a\<in>set acts. \<not> Equals ts a \<Longrightarrow>
   relatedToActiveSync_loop ts rel acts =
     (rel \<or> (\<exists>a\<in>set acts. CidArrsEqual (Parents ts) (Cids a)))"
  by (induction acts arbitrary: rel) auto

lemma range_order_set:
  "mset acts = mset (map snd al) \<Longrightarrow> set acts = snd ` set al"
  by (metis mset_eq_setD set_map)

lemma scheduleIncoming_child:
  assumes "mset acts = mset (map snd (activeSyncs sm))"
    and "\<exists>(k, a)\<in>set (activeSyncs sm). CidArrsEqual (Parents ts) (Cids a)"
    and "\<forall>(k, a)\<in>set (activeSyncs sm). \<not> Equals ts a"
  shows "scheduleIncoming acts ts sm = Inr (sm\<lparr>activeSyncTips := Insert ts (activeSyncTips sm)\<rparr>)"
proof -
  have s: "set acts = snd ` set (activeSyncs sm)" using assms(1) by (rule range_order_set)
  have "\<forall>a\<in>set acts. \<not> Equals ts a" using assms(3) s by auto
  moreover have "\<exists>a\<in>set acts. CidArrsEqual (Parents ts) (Cids a)" using assms(2) s by force
  ultimately have "relatedToActiveSync_loop ts False acts"
    by (simp add: relatedToActiveSync_loop_no_equal)
  then show ?thesis by (simp add: scheduleIncoming_def)
qed

text \<open>
  C2. A tip set that comes in and is same-chain-related to a tip set in activeSyncs is to
  be inserted into activeSyncTips, with no other change. The loop of scheduleIncoming does
  so for a child of an active tip set (the lemma above), and misses the two other
  relations. With ex_T1 active, its parent ex_T0 comes in: the two are same-chain-related,
  yet ex_T0 is not inserted into activeSyncTips; it becomes the next sync target, and
  workerChan is set. The same happens when ex_T1 itself comes in again: the loop breaks on
  the equal tip set with the flag unset.
\<close>

theorem related_tip_set_not_put_into_overflow:
  "syncScheduler [IncomingTipSet ex_T1 [], WorkSent] NewSyncManager = Inr ex_dispatched
   \<and> map_of (activeSyncs ex_dispatched) (Key ex_T1) = Some ex_T1
   \<and> sameChainRelated ex_T0 ex_T1
   \<and> scheduleIncoming [ex_T1] ex_T0 ex_dispatched
       = Inr (ex_dispatched\<lparr>nextSyncTarget := Some \<lparr>tips = [ex_T0], count = 1\<rparr>,
                             workerChan := syncTargets\<rparr>)
   \<and> scheduleIncoming [ex_T1] ex_T0 ex_dispatched
       \<noteq> Inr (ex_dispatched\<lparr>activeSyncTips := Insert ex_T0 (activeSyncTips ex_dispatched)\<rparr>)
   \<and> sameChainRelated ex_T1 ex_T1
   \<and> scheduleIncoming [ex_T1] ex_T1 ex_dispatched
       = Inr (ex_dispatched\<lparr>nextSyncTarget := Some \<lparr>tips = [ex_T1], count = 1\<rparr>,
                             workerChan := syncTargets\<rparr>)
   \<and> scheduleIncoming [ex_T1] ex_T1 ex_dispatched
       \<noteq> Inr (ex_dispatched\<lparr>activeSyncTips := Insert ex_T1 (activeSyncTips ex_dispatched)\<rparr>)"
  by (simp add: scheduleIncoming_def scheduleWorkSent_def Pop_def removeBucket_def
        heaviestTipSet_def sameChainAs_def sameChainRelated_def ex_defs ex_state_defs tipset_defs)

text \<open>
  C1. The run in which ex_T1 comes in and is sent to a worker, and then its parent ex_T0
  comes in and is sent to a worker, is one the control loop can take; it ends with both
  tip sets in activeSyncs, and the parents of ex_T1 are the identifiers of ex_T0.
\<close>

theorem parent_of_active_sync_is_dispatched_too:
  "feasible NewSyncManager
     [IncomingTipSet ex_T1 [], WorkSent, IncomingTipSet ex_T0 [ex_T1], WorkSent]
   \<and> syncScheduler
       [IncomingTipSet ex_T1 [], WorkSent, IncomingTipSet ex_T0 [ex_T1], WorkSent] NewSyncManager
     = Inr (NewSyncManager\<lparr>activeSyncs := [(Key ex_T1, ex_T1), (Key ex_T0, ex_T0)]\<rparr>)
   \<and> CidArrsEqual (Parents ex_T1) (Cids ex_T0)
   \<and> \<not> singleActiveSyncPerLineage
         (NewSyncManager\<lparr>activeSyncs := [(Key ex_T1, ex_T1), (Key ex_T0, ex_T0)]\<rparr>)"
  by (simp add: scheduleIncoming_def scheduleWorkSent_def Pop_def removeBucket_def
        heaviestTipSet_def sameChainAs_def sameChainRelated_def singleActiveSyncPerLineage_def
        ex_defs ex_state_defs tipset_defs)

text \<open>
  C8. A child T2 of a dispatched tip set T1, held in activeSyncTips, is to become the next
  sync target or join syncQueue when the job of T1 succeeds. In the first run ex_T1 is sent
  to a worker; two of its children come in, ex_X2 and then ex_T2, and go to separate
  buckets of activeSyncTips, as siblings are not on the same chain; the job of ex_T1
  succeeds. PopRelated takes the first related bucket only, that of ex_X2: the bucket of
  ex_T2 stays in activeSyncTips, and is neither the next sync target nor in syncQueue. The
  second run ends with the three events of the claim, one right after the other: a first
  job of ex_T1 has failed and left the bucket of its child ex_Y2 in activeSyncTips; ex_T1
  comes in again and is sent to a worker, ex_T2 comes in, the job succeeds, and the bucket
  replayed is that of ex_Y2.
\<close>

theorem sibling_overflow_bucket_is_not_replayed:
  "feasible NewSyncManager
     [IncomingTipSet ex_T1 [], WorkSent, IncomingTipSet ex_X2 [ex_T1],
      IncomingTipSet ex_T2 [ex_T1], SyncResult \<lparr>result_ts = ex_T1, success = True\<rparr>]
   \<and> CidArrsEqual (Parents ex_T2) (Cids ex_T1)
   \<and> syncScheduler
       [IncomingTipSet ex_T1 [], WorkSent, IncomingTipSet ex_X2 [ex_T1],
        IncomingTipSet ex_T2 [ex_T1], SyncResult \<lparr>result_ts = ex_T1, success = True\<rparr>]
       NewSyncManager
     = Inr (NewSyncManager\<lparr>activeSyncTips := [\<lparr>tips = [ex_T2], count = 1\<rparr>],
              nextSyncTarget := Some \<lparr>tips = [ex_X2], count = 1\<rparr>,
              workerChan := syncTargets\<rparr>)
   \<and> feasible NewSyncManager
     [IncomingTipSet ex_T1 [], WorkSent, IncomingTipSet ex_X2 [ex_T1],
      IncomingTipSet ex_Y2 [ex_T1], SyncResult \<lparr>result_ts = ex_T1, success = False\<rparr>,
      IncomingTipSet ex_T1 [], WorkSent, IncomingTipSet ex_T2 [ex_T1],
      SyncResult \<lparr>result_ts = ex_T1, success = True\<rparr>]
   \<and> syncScheduler
     [IncomingTipSet ex_T1 [], WorkSent, IncomingTipSet ex_X2 [ex_T1],
      IncomingTipSet ex_Y2 [ex_T1], SyncResult \<lparr>result_ts = ex_T1, success = False\<rparr>,
      IncomingTipSet ex_T1 [], WorkSent] NewSyncManager
     = Inr (ex_dispatched\<lparr>activeSyncTips := [\<lparr>tips = [ex_Y2], count = 1\<rparr>]\<rparr>)
   \<and> syncScheduler
     [IncomingTipSet ex_T2 [ex_T1], SyncResult \<lparr>result_ts = ex_T1, success = True\<rparr>]
     (ex_dispatched\<lparr>activeSyncTips := [\<lparr>tips = [ex_Y2], count = 1\<rparr>]\<rparr>)
     = Inr (NewSyncManager\<lparr>activeSyncTips := [\<lparr>tips = [ex_T2], count = 1\<rparr>],
              nextSyncTarget := Some \<lparr>tips = [ex_Y2], count = 1\<rparr>,
              workerChan := syncTargets\<rparr>)"
  by (simp add: scheduleIncoming_def scheduleWorkSent_def scheduleProcessResult_def Pop_def
        PopRelated_def removeBucket_def heaviestTipSet_def sameChainAs_def
        ex_defs ex_state_defs tipset_defs)

lemma sameChainRelated_sym: "sameChainRelated a b = sameChainRelated b a"
  by (auto simp: sameChainRelated_def Equals_def CidArrsEqual_def)

section \<open>The partition of the bucket sets\<close>

lemma sorted_wrt_remove:
  assumes "sorted_wrt P xs"
  shows "sorted_wrt P (take i xs @ drop (Suc i) xs)"
proof -
  have "sorted_wrt P (take i xs @ drop i xs)" using assms by simp
  then have 1: "sorted_wrt P (take i xs)"
    and 3: "\<forall>x\<in>set (take i xs). \<forall>y\<in>set (drop i xs). P x y"
    unfolding sorted_wrt_append by auto
  have 4: "sorted_wrt P (drop (Suc i) xs)"
    using assms sorted_wrt_drop[of P xs "Suc i"] by simp
  have "set (drop (Suc i) xs) \<subseteq> set (drop i xs)" by (simp add: set_drop_subset_set_drop)
  then have 5: "\<forall>x\<in>set (take i xs). \<forall>y\<in>set (drop (Suc i) xs). P x y" using 3 by blast
  show ?thesis unfolding sorted_wrt_append using 1 4 5 by blast
qed

lemma foundersApart_remove:
  "foundersApart bs \<Longrightarrow> foundersApart (take i bs @ drop (Suc i) bs)"
  unfolding foundersApart_def
  using sorted_wrt_remove[of _ "map founder bs" i] by (simp add: take_map drop_map)

lemma foundersRelated_sym: "foundersRelated x y = foundersRelated y x"
  by (cases x; cases y) (simp_all add: foundersRelated_def sameChainRelated_sym)

lemma founder_mem: "founder b = Some f \<Longrightarrow> f \<in> set (tips b)"
  by (cases "tips b") (simp_all add: founder_def)

lemma founder_add: "sameChainAs b ts \<Longrightarrow> founder (add ts b) = founder b"
  by (cases "tips b") (auto simp: founder_def tips_add sameChainAs_def)

lemma founder_new: "founder \<lparr>tips = [ts], count = 1\<rparr> = Some ts"
  by (simp add: founder_def)

lemma founder_unrelated:
  assumes "\<not> sameChainAs b ts"
  shows "\<not> foundersRelated (founder b) (Some ts)"
proof (cases "founder b")
  case None
  then show ?thesis by (simp add: foundersRelated_def)
next
  case (Some f)
  then have "f \<in> set (tips b)" by (rule founder_mem)
  then have "\<not> sameChainRelated ts f" using assms by (auto simp: sameChainAs_iff)
  then show ?thesis using Some by (simp add: foundersRelated_def sameChainRelated_sym[of f])
qed

lemma founders_Insert:
  "set (map founder (Insert ts bs)) \<subseteq> insert (Some ts) (set (map founder bs))"
proof (induction bs)
  case Nil
  show ?case by (simp add: founder_new)
next
  case (Cons b bs)
  show ?case
  proof (cases "sameChainAs b ts")
    case True
    then show ?thesis by (auto simp: founder_add)
  next
    case False
    then show ?thesis using Cons by auto
  qed
qed

lemma foundersApart_Insert:
  "foundersApart bs \<Longrightarrow> foundersApart (Insert ts bs)"
proof (induction bs)
  case Nil
  show ?case by (simp add: foundersApart_def)
next
  case (Cons b bs)
  show ?case
  proof (cases "sameChainAs b ts")
    case True
    then have "map founder (Insert ts (b # bs)) = map founder (b # bs)"
      by (simp add: founder_add)
    then show ?thesis using Cons.prems by (simp add: foundersApart_def)
  next
    case False
    have tail: "foundersApart (Insert ts bs)"
      using Cons by (simp add: foundersApart_def)
    have old: "\<forall>y\<in>set (map founder bs).
                 \<not> foundersRelated (founder b) y \<and> \<not> foundersRelated y (founder b)"
      using Cons.prems by (simp add: foundersApart_def)
    have new: "\<not> foundersRelated (founder b) (Some ts) \<and> \<not> foundersRelated (Some ts) (founder b)"
      using founder_unrelated[OF False] foundersRelated_sym[of "Some ts"] by simp
    have "\<forall>y\<in>set (map founder (Insert ts bs)).
            \<not> foundersRelated (founder b) y \<and> \<not> foundersRelated y (founder b)"
    proof
      fix y assume "y \<in> set (map founder (Insert ts bs))"
      then have "y = Some ts \<or> y \<in> set (map founder bs)" using founders_Insert[of ts bs] by blast
      then show "\<not> foundersRelated (founder b) y \<and> \<not> foundersRelated y (founder b)"
        using old new by blast
    qed
    then show ?thesis using False tail by (simp add: foundersApart_def)
  qed
qed

lemma Pop_rest:
  "Pop bs = Inr (b, rest) \<Longrightarrow> rest = bs \<or> (\<exists>i. rest = take i bs @ drop (Suc i) bs)"
  by (auto simp: Pop_def removeBucket_def split: sum.splits option.splits if_splits)

lemma PopRelated_rest:
  "PopRelated ts bs = Inr (r, rest) \<Longrightarrow> rest = bs \<or> (\<exists>i. rest = take i bs @ drop (Suc i) bs)"
  by (auto simp: PopRelated_def removeBucket_def split: sum.splits option.splits if_splits)

lemma foundersApart_Pop:
  "foundersApart bs \<Longrightarrow> Pop bs = Inr (b, rest) \<Longrightarrow> foundersApart rest"
  using Pop_rest foundersApart_remove by blast

lemma foundersApart_PopRelated:
  "foundersApart bs \<Longrightarrow> PopRelated ts bs = Inr (r, rest) \<Longrightarrow> foundersApart rest"
  using PopRelated_rest foundersApart_remove by blast

text \<open>What each handler does to the overflow set.\<close>

lemma scheduleIncoming_activeSyncTips:
  assumes "scheduleIncoming acts ts sm = Inr sm'"
  shows "activeSyncTips sm' = activeSyncTips sm \<or> activeSyncTips sm' = Insert ts (activeSyncTips sm)"
proof (cases "relatedToActiveSync_loop ts False acts")
  case True
  then show ?thesis using assms by (auto simp: scheduleIncoming_def)
next
  case notrel: False
  show ?thesis
  proof (cases "case nextSyncTarget sm of None \<Rightarrow> False | Some nst \<Rightarrow> sameChainAs nst ts")
    case True
    then show ?thesis using notrel assms by (auto simp: scheduleIncoming_def)
  next
    case False
    show ?thesis
    proof (cases "nextSyncTarget sm")
      case None
      show ?thesis
      proof (cases "Pop (Insert ts (syncQueue sm))")
        case (Inl e)
        then show ?thesis using assms notrel False None by (simp add: scheduleIncoming_def Let_def)
      next
        case (Inr r)
        obtain b rest where "r = (b, rest)" by (cases r) auto
        then show ?thesis using assms notrel False None Inr
          by (auto simp: scheduleIncoming_def Let_def)
      qed
    next
      case (Some nst)
      then show ?thesis using assms notrel False by (auto simp: scheduleIncoming_def Let_def)
    qed
  qed
qed

lemma scheduleIncoming_syncQueue:
  assumes "scheduleIncoming acts ts sm = Inr sm'"
  shows "syncQueue sm' = syncQueue sm \<or> syncQueue sm' = Insert ts (syncQueue sm) \<or>
         (\<exists>b. Pop (Insert ts (syncQueue sm)) = Inr (b, syncQueue sm'))"
proof (cases "relatedToActiveSync_loop ts False acts")
  case True
  then show ?thesis using assms by (auto simp: scheduleIncoming_def)
next
  case notrel: False
  show ?thesis
  proof (cases "case nextSyncTarget sm of None \<Rightarrow> False | Some nst \<Rightarrow> sameChainAs nst ts")
    case True
    then show ?thesis using notrel assms by (auto simp: scheduleIncoming_def)
  next
    case False
    show ?thesis
    proof (cases "nextSyncTarget sm")
      case None
      show ?thesis
      proof (cases "Pop (Insert ts (syncQueue sm))")
        case (Inl e)
        then show ?thesis using assms notrel False None by (simp add: scheduleIncoming_def Let_def)
      next
        case (Inr r)
        obtain b rest where "r = (b, rest)" by (cases r) auto
        then show ?thesis using assms notrel False None Inr
          by (auto simp: scheduleIncoming_def Let_def)
      qed
    next
      case (Some nst)
      then show ?thesis using assms notrel False by (auto simp: scheduleIncoming_def Let_def)
    qed
  qed
qed

lemma scheduleProcessResult_fields:
  assumes "scheduleProcessResult res sm = Inr sm'"
  shows "(\<exists>r. PopRelated (result_ts res) (activeSyncTips sm) = Inr (r, activeSyncTips sm')) \<and>
         (\<not> replays sm (SyncResult res) \<longrightarrow> syncQueue sm' = syncQueue sm)"
proof -
  obtain r rest where pr: "PopRelated (result_ts res) (activeSyncTips sm) = Inr (r, rest)"
    using PopRelated_no_panic[of "result_ts res" "activeSyncTips sm"] by (metis surj_pair)
  show ?thesis
  proof (cases r)
    case None
    then have "sm' = sm\<lparr>activeSyncs := AList.delete (Key (result_ts res)) (activeSyncs sm),
                        activeSyncTips := rest\<rparr>"
      using assms pr by (simp add: scheduleProcessResult_def Let_def)
    then show ?thesis using pr by simp
  next
    case (Some rb)
    have ex: "list_ex (\<lambda>b. sameChainAs b (result_ts res)) (activeSyncTips sm)"
      using pr Some PopRelated_unrelated[of "activeSyncTips sm" "result_ts res"]
      by (auto simp: list_ex_iff)
    show ?thesis
    proof (cases "success res")
      case False
      then have "sm' = sm\<lparr>activeSyncs := AList.delete (Key (result_ts res)) (activeSyncs sm),
                          activeSyncTips := rest\<rparr>"
        using assms pr Some by (simp add: scheduleProcessResult_def Let_def)
      then show ?thesis using pr by simp
    next
      case True
      show ?thesis
      proof (cases "nextSyncTarget sm")
        case None
        then have "sm' = sm\<lparr>activeSyncs := AList.delete (Key (result_ts res)) (activeSyncs sm),
                            activeSyncTips := rest, nextSyncTarget := Some rb,
                            workerChan := syncTargets\<rparr>"
          using assms pr Some True by (simp add: scheduleProcessResult_def Let_def)
        then show ?thesis using pr by simp
      next
        case nst: (Some nst)
        then have "sm' = sm\<lparr>activeSyncs := AList.delete (Key (result_ts res)) (activeSyncs sm),
                            activeSyncTips := rest, syncQueue := syncQueue sm @ [rb]\<rparr>"
          using assms pr Some True by (simp add: scheduleProcessResult_def Let_def)
        then show ?thesis using pr True nst ex by simp
      qed
    qed
  qed
qed

lemma scheduleWorkSent_fields:
  assumes "scheduleWorkSent sm = Inr sm'"
  shows "activeSyncTips sm' = activeSyncTips sm \<and>
         (syncQueue sm' = syncQueue sm \<or> (\<exists>b. Pop (syncQueue sm) = Inr (b, syncQueue sm')))"
proof (cases "heaviestTipSet (nextSyncTarget sm)")
  case None
  then show ?thesis using assms by (simp add: scheduleWorkSent_def)
next
  case (Some hts)
  show ?thesis
  proof (cases "syncQueue sm = []")
    case True
    then have "sm' = sm\<lparr>activeSyncs := AList.update (Key hts) hts (activeSyncs sm),
                       nextSyncTarget := None, workerChan := nil_chan\<rparr>"
      using assms Some by (simp add: scheduleWorkSent_def Let_def)
    then show ?thesis by simp
  next
    case False
    show ?thesis
    proof (cases "Pop (syncQueue sm)")
      case (Inl e)
      then show ?thesis using assms Some False by (simp add: scheduleWorkSent_def Let_def)
    next
      case (Inr r)
      obtain b rest where r: "r = (b, rest)" by (cases r) auto
      then have "sm' = sm\<lparr>activeSyncs := AList.update (Key hts) hts (activeSyncs sm),
                       syncQueue := rest, nextSyncTarget := b\<rparr>"
        using assms Some False Inr by (simp add: scheduleWorkSent_def Let_def)
      then show ?thesis using Inr r by auto
    qed
  qed
qed

lemma schedule_foundersApart_activeSyncTips:
  assumes "foundersApart (activeSyncTips sm)" and "schedule e sm = Inr sm'"
  shows "foundersApart (activeSyncTips sm')"
proof (cases e)
  case (IncomingTipSet ts acts)
  then have "scheduleIncoming acts ts sm = Inr sm'" using assms(2) by simp
  from scheduleIncoming_activeSyncTips[OF this] show ?thesis
    using assms(1) foundersApart_Insert by auto
next
  case (SyncResult res)
  then have "scheduleProcessResult res sm = Inr sm'" using assms(2) by simp
  from scheduleProcessResult_fields[OF this] obtain r where
    "PopRelated (result_ts res) (activeSyncTips sm) = Inr (r, activeSyncTips sm')" by blast
  with assms(1) show ?thesis by (rule foundersApart_PopRelated)
next
  case WorkSent
  then have "scheduleWorkSent sm = Inr sm'" using assms(2) by simp
  from scheduleWorkSent_fields[OF this] show ?thesis using assms(1) by simp
next
  case Stop
  then have "sm' = sm" using assms(2) by simp
  then show ?thesis using assms(1) by simp
qed

lemma schedule_foundersApart_syncQueue:
  assumes "foundersApart (syncQueue sm)" and "\<not> replays sm e" and "schedule e sm = Inr sm'"
  shows "foundersApart (syncQueue sm')"
proof (cases e)
  case (IncomingTipSet ts acts)
  then have "scheduleIncoming acts ts sm = Inr sm'" using assms(3) by simp
  from scheduleIncoming_syncQueue[OF this] show ?thesis
    using assms(1) foundersApart_Insert foundersApart_Pop by metis
next
  case (SyncResult res)
  then have "scheduleProcessResult res sm = Inr sm'" using assms(3) by simp
  from scheduleProcessResult_fields[OF this] have "syncQueue sm' = syncQueue sm"
    using assms(2) SyncResult by blast
  then show ?thesis using assms(1) by simp
next
  case WorkSent
  then have "scheduleWorkSent sm = Inr sm'" using assms(3) by simp
  from scheduleWorkSent_fields[OF this] show ?thesis
    using assms(1) foundersApart_Pop by metis
next
  case Stop
  then have "sm' = sm" using assms(3) by simp
  then show ?thesis using assms(1) by simp
qed

lemma syncScheduler_Cons:
  "e \<noteq> Stop \<Longrightarrow> syncScheduler (e # es) sm =
     (case schedule e sm of Inl p \<Rightarrow> Inl p | Inr sm1 \<Rightarrow> syncScheduler es sm1)"
  by (cases e) simp_all

lemma replayFree_Cons:
  "e \<noteq> Stop \<Longrightarrow> replayFree sm (e # es) =
     (\<not> replays sm e \<and>
      (case schedule e sm of Inl p \<Rightarrow> True | Inr sm1 \<Rightarrow> replayFree sm1 es))"
  by (cases e) simp_all

lemma syncScheduler_foundersApart_activeSyncTips:
  "foundersApart (activeSyncTips sm) \<Longrightarrow> syncScheduler es sm = Inr sm'
    \<Longrightarrow> foundersApart (activeSyncTips sm')"
proof (induction es arbitrary: sm)
  case Nil
  then show ?case by simp
next
  case (Cons e es)
  show ?case
  proof (cases "e = Stop")
    case True
    then show ?thesis using Cons.prems by simp
  next
    case False
    show ?thesis
    proof (cases "schedule e sm")
      case (Inl p)
      then show ?thesis using Cons.prems(2) False by (simp add: syncScheduler_Cons)
    next
      case (Inr sm1)
      have run: "syncScheduler es sm1 = Inr sm'"
        using Cons.prems(2) False Inr by (simp add: syncScheduler_Cons)
      have "foundersApart (activeSyncTips sm1)"
        using Cons.prems(1) Inr by (rule schedule_foundersApart_activeSyncTips)
      then show ?thesis using run by (rule Cons.IH)
    qed
  qed
qed

lemma syncScheduler_foundersApart_syncQueue:
  "foundersApart (syncQueue sm) \<Longrightarrow> replayFree sm es \<Longrightarrow> syncScheduler es sm = Inr sm'
    \<Longrightarrow> foundersApart (syncQueue sm')"
proof (induction es arbitrary: sm)
  case Nil
  then show ?case by simp
next
  case (Cons e es)
  show ?case
  proof (cases "e = Stop")
    case True
    then show ?thesis using Cons.prems by simp
  next
    case False
    show ?thesis
    proof (cases "schedule e sm")
      case (Inl p)
      then show ?thesis using Cons.prems(3) False by (simp add: syncScheduler_Cons)
    next
      case (Inr sm1)
      have run: "syncScheduler es sm1 = Inr sm'"
        using Cons.prems(3) False Inr by (simp add: syncScheduler_Cons)
      have nr: "\<not> replays sm e" and rf: "replayFree sm1 es"
        using Cons.prems(2) False Inr by (simp_all add: replayFree_Cons)
      have "foundersApart (syncQueue sm1)"
        using Cons.prems(1) nr Inr by (rule schedule_foundersApart_syncQueue)
      then show ?thesis using rf run by (rule Cons.IH)
    qed
  qed
qed

text \<open>
  C6, as amended. Insert opens a new bucket only for a tip set that no bucket of the set is
  on the same chain as, and merges no buckets afterwards. So what every run keeps is that
  the founders of the buckets of activeSyncTips are apart: no two buckets of the overflow
  set were opened for same-chain-related tip sets. The same holds of syncQueue in every
  run in which scheduleProcessResult appends no replayed bucket to it. Tip sets that join
  the buckets later can relate two buckets of a set.
\<close>

theorem founders_of_buckets_stay_apart:
  assumes "foundersApart (activeSyncTips sm)" and "foundersApart (syncQueue sm)"
    and "syncScheduler es sm = Inr sm'"
  shows "foundersApart (activeSyncTips sm') \<and>
         (replayFree sm es \<longrightarrow> foundersApart (syncQueue sm'))"
  using assms syncScheduler_foundersApart_activeSyncTips syncScheduler_foundersApart_syncQueue
  by blast

theorem founders_of_buckets_stay_apart_witness:
  "syncScheduler
     [IncomingTipSet ex_T1 [], WorkSent, IncomingTipSet ex_X2 [ex_T1],
      IncomingTipSet ex_Y2 [ex_T1], IncomingTipSet ex_U [ex_T1], IncomingTipSet ex_T0 [ex_T1],
      IncomingTipSet ex_T3 [ex_T1], IncomingTipSet ex_T1 [ex_T1],
      SyncResult \<lparr>result_ts = ex_U, success = True\<rparr>] NewSyncManager
     = Inr (ex_dispatched\<lparr>
              syncQueue := [\<lparr>tips = [ex_T0, ex_T1], count = 2\<rparr>, \<lparr>tips = [ex_T3], count = 1\<rparr>],
              activeSyncTips := [\<lparr>tips = [ex_X2], count = 1\<rparr>, \<lparr>tips = [ex_Y2], count = 1\<rparr>],
              nextSyncTarget := Some \<lparr>tips = [ex_U], count = 1\<rparr>,
              workerChan := syncTargets\<rparr>)
   \<and> replayFree NewSyncManager
     [IncomingTipSet ex_T1 [], WorkSent, IncomingTipSet ex_X2 [ex_T1],
      IncomingTipSet ex_Y2 [ex_T1], IncomingTipSet ex_U [ex_T1], IncomingTipSet ex_T0 [ex_T1],
      IncomingTipSet ex_T3 [ex_T1], IncomingTipSet ex_T1 [ex_T1],
      SyncResult \<lparr>result_ts = ex_U, success = True\<rparr>]
   \<and> foundersApart [\<lparr>tips = [ex_X2], count = 1\<rparr>, \<lparr>tips = [ex_Y2], count = 1\<rparr>]
   \<and> foundersApart [\<lparr>tips = [ex_T0, ex_T1], count = 2\<rparr>, \<lparr>tips = [ex_T3], count = 1\<rparr>]
   \<and> syncScheduler
     [IncomingTipSet ex_U [], IncomingTipSet ex_T1 [], IncomingTipSet ex_T3 [],
      IncomingTipSet ex_T2 []] NewSyncManager
     = Inr (NewSyncManager\<lparr>
              syncQueue := [\<lparr>tips = [ex_T1, ex_T2], count = 2\<rparr>, \<lparr>tips = [ex_T3], count = 1\<rparr>],
              nextSyncTarget := Some \<lparr>tips = [ex_U], count = 1\<rparr>,
              workerChan := syncTargets\<rparr>)
   \<and> replayFree NewSyncManager
     [IncomingTipSet ex_U [], IncomingTipSet ex_T1 [], IncomingTipSet ex_T3 [],
      IncomingTipSet ex_T2 []]
   \<and> foundersApart [\<lparr>tips = [ex_T1, ex_T2], count = 2\<rparr>, \<lparr>tips = [ex_T3], count = 1\<rparr>]
   \<and> \<not> foundersApart [\<lparr>tips = [ex_T2, ex_T1], count = 2\<rparr>, \<lparr>tips = [ex_T3], count = 1\<rparr>]"
  using founders_of_buckets_stay_apart
          [of NewSyncManager
              "[IncomingTipSet ex_T1 [], WorkSent, IncomingTipSet ex_X2 [ex_T1],
                IncomingTipSet ex_Y2 [ex_T1], IncomingTipSet ex_U [ex_T1],
                IncomingTipSet ex_T0 [ex_T1], IncomingTipSet ex_T3 [ex_T1],
                IncomingTipSet ex_T1 [ex_T1],
                SyncResult \<lparr>result_ts = ex_U, success = True\<rparr>]"
              "ex_dispatched\<lparr>
                 syncQueue := [\<lparr>tips = [ex_T0, ex_T1], count = 2\<rparr>, \<lparr>tips = [ex_T3], count = 1\<rparr>],
                 activeSyncTips := [\<lparr>tips = [ex_X2], count = 1\<rparr>, \<lparr>tips = [ex_Y2], count = 1\<rparr>],
                 nextSyncTarget := Some \<lparr>tips = [ex_U], count = 1\<rparr>,
                 workerChan := syncTargets\<rparr>"]
        founders_of_buckets_stay_apart
          [of NewSyncManager
              "[IncomingTipSet ex_U [], IncomingTipSet ex_T1 [], IncomingTipSet ex_T3 [],
                IncomingTipSet ex_T2 []]"
              "NewSyncManager\<lparr>
                 syncQueue := [\<lparr>tips = [ex_T1, ex_T2], count = 2\<rparr>, \<lparr>tips = [ex_T3], count = 1\<rparr>],
                 nextSyncTarget := Some \<lparr>tips = [ex_U], count = 1\<rparr>,
                 workerChan := syncTargets\<rparr>"]
  by (simp add: foundersApart_def founder_def foundersRelated_def sameChainRelated_def
        scheduleIncoming_def scheduleWorkSent_def scheduleProcessResult_def Pop_def
        PopRelated_def removeBucket_def heaviestTipSet_def sameChainAs_def add_def
        ex_defs ex_state_defs tipset_defs)

text \<open>
  C6 as stated fails. With ex_U waiting as the next sync target, ex_T1 and its grandchild
  ex_T3 come in and get a bucket each in syncQueue; then ex_T2 comes in, child of the one
  and parent of the other, and joins the first bucket: the two buckets of syncQueue are now
  related. In the second run ex_T2 is held in activeSyncTips while ex_T1 is active, its
  child ex_T3 is queued, and when the job of ex_T1 succeeds the bucket of ex_T2 is appended
  to syncQueue next to the bucket of ex_T3.
\<close>

theorem related_buckets_in_the_pending_queue:
  "feasible NewSyncManager
     [IncomingTipSet ex_U [], IncomingTipSet ex_T1 [], IncomingTipSet ex_T3 [],
      IncomingTipSet ex_T2 []]
   \<and> syncScheduler
       [IncomingTipSet ex_U [], IncomingTipSet ex_T1 [], IncomingTipSet ex_T3 [],
        IncomingTipSet ex_T2 []] NewSyncManager
     = Inr (NewSyncManager\<lparr>
              syncQueue := [\<lparr>tips = [ex_T1, ex_T2], count = 2\<rparr>, \<lparr>tips = [ex_T3], count = 1\<rparr>],
              nextSyncTarget := Some \<lparr>tips = [ex_U], count = 1\<rparr>,
              workerChan := syncTargets\<rparr>)
   \<and> bucketsRelated \<lparr>tips = [ex_T1, ex_T2], count = 2\<rparr> \<lparr>tips = [ex_T3], count = 1\<rparr>
   \<and> \<not> partitioned [\<lparr>tips = [ex_T1, ex_T2], count = 2\<rparr>, \<lparr>tips = [ex_T3], count = 1\<rparr>]
   \<and> feasible NewSyncManager
     [IncomingTipSet ex_T1 [], WorkSent, IncomingTipSet ex_U [ex_T1],
      IncomingTipSet ex_T2 [ex_T1], IncomingTipSet ex_T3 [ex_T1],
      SyncResult \<lparr>result_ts = ex_T1, success = True\<rparr>]
   \<and> syncScheduler
     [IncomingTipSet ex_T1 [], WorkSent, IncomingTipSet ex_U [ex_T1],
      IncomingTipSet ex_T2 [ex_T1], IncomingTipSet ex_T3 [ex_T1],
      SyncResult \<lparr>result_ts = ex_T1, success = True\<rparr>] NewSyncManager
     = Inr (NewSyncManager\<lparr>
              syncQueue := [\<lparr>tips = [ex_T3], count = 1\<rparr>, \<lparr>tips = [ex_T2], count = 1\<rparr>],
              nextSyncTarget := Some \<lparr>tips = [ex_U], count = 1\<rparr>,
              workerChan := syncTargets\<rparr>)
   \<and> \<not> partitioned [\<lparr>tips = [ex_T3], count = 1\<rparr>, \<lparr>tips = [ex_T2], count = 1\<rparr>]"
  by (simp add: partitioned_def bucketsRelated_def scheduleIncoming_def scheduleWorkSent_def
        scheduleProcessResult_def Pop_def PopRelated_def removeBucket_def heaviestTipSet_def
        sameChainAs_def add_def ex_defs ex_state_defs tipset_defs)

end
